theory Spec2Isabelle
  imports Main "HOL-Library.Word" "HOL-Library.Multiset"
begin

unbundle bit_operations_syntax

section \<open>Change detection (pkg/sync/service.go)\<close>

text \<open>
  Go strings and byte slices are sequences of bytes. A string is modelled as
  \<^typ>\<open>string\<close> (a list of 8-bit characters), file content as a list of
  8-bit words.
\<close>

type_synonym bytes = "8 word list"

text \<open>
  \<open>encoding/hex.EncodeToString\<close>: two lower-case hexadecimal digits per byte,
  high nibble first.
\<close>

definition hextable :: string where
  "hextable = ''0123456789abcdef''"

fun EncodeToString :: "bytes \<Rightarrow> string" where
  "EncodeToString [] = []"
| "EncodeToString (b # bs) =
     hextable ! unat (drop_bit 4 b) # hextable ! unat (b AND 15) # EncodeToString bs"

text \<open>
  \<open>computeFileHash\<close> (service.go, 214-217). The digest \<open>crypto/sha256.Sum256\<close>
  belongs to the standard library; it is the parameter \<open>sum256\<close>.
\<close>

definition computeFileHash :: "(bytes \<Rightarrow> bytes) \<Rightarrow> bytes \<Rightarrow> string" where
  "computeFileHash sum256 content = EncodeToString (sum256 content)"

text \<open>The \<open>Service\<close> struct (service.go, 16-21).\<close>

record Service =
  repoDir :: string
  repoSubdir :: string
  dashboardsDir :: string
  fileHashes :: "string \<rightharpoonup> string"

text \<open>\<open>NewService\<close> (service.go, 24-31): the fingerprint table starts empty.\<close>

definition NewService :: "string \<Rightarrow> string \<Rightarrow> string \<Rightarrow> Service" where
  "NewService rd rs dd =
     \<lparr>repoDir = rd, repoSubdir = rs, dashboardsDir = dd, fileHashes = Map.empty\<rparr>"

text \<open>
  \<open>HasFileChanged\<close> (service.go, 220-231). The receiver is mutated in place; the
  model returns the answer together with the updated service. The table is
  written only in the branch that answers true.
\<close>

definition HasFileChanged ::
  "(bytes \<Rightarrow> bytes) \<Rightarrow> Service \<Rightarrow> string \<Rightarrow> bytes \<Rightarrow> bool \<times> Service" where
  "HasFileChanged sum256 s path content =
     (let newHash = computeFileHash sum256 content in
      case fileHashes s path of
        None \<Rightarrow> (True, s\<lparr>fileHashes := (fileHashes s)(path \<mapsto> newHash)\<rparr>)
      | Some oldHash \<Rightarrow>
          if oldHash \<noteq> newHash
          then (True, s\<lparr>fileHashes := (fileHashes s)(path \<mapsto> newHash)\<rparr>)
          else (False, s))"

text \<open>
  \<open>GetChangedFiles\<close> (service.go, 234-250). \<open>os.ReadFile\<close> is the parameter
  \<open>readFile\<close>: \<open>None\<close> when the read returns an error. The loop body appends to
  \<open>changed\<close>; an unreadable path takes the \<open>continue\<close>. The error result is always
  \<open>nil\<close>, written \<open>None\<close>.
\<close>

fun GetChangedFiles_loop ::
  "(bytes \<Rightarrow> bytes) \<Rightarrow> (string \<Rightarrow> bytes option) \<Rightarrow> Service \<Rightarrow> string list \<Rightarrow> string list
     \<Rightarrow> string list \<times> Service" where
  "GetChangedFiles_loop sum256 readFile s changed [] = (changed, s)"
| "GetChangedFiles_loop sum256 readFile s changed (filePath # rest) =
     (case readFile filePath of
        None \<Rightarrow> GetChangedFiles_loop sum256 readFile s changed rest
      | Some content \<Rightarrow>
          (case HasFileChanged sum256 s filePath content of
             (True, s') \<Rightarrow> GetChangedFiles_loop sum256 readFile s' (changed @ [filePath]) rest
           | (False, s') \<Rightarrow> GetChangedFiles_loop sum256 readFile s' changed rest))"

definition GetChangedFiles ::
  "(bytes \<Rightarrow> bytes) \<Rightarrow> (string \<Rightarrow> bytes option) \<Rightarrow> Service \<Rightarrow> string list
     \<Rightarrow> (string list \<times> string option) \<times> Service" where
  "GetChangedFiles sum256 readFile s allFiles =
     (case GetChangedFiles_loop sum256 readFile s [] allFiles of
        (changed, s') \<Rightarrow> ((changed, None), s'))"

text \<open>
  Reference notions for the statements below: the fingerprint a readable path
  has on disk, and the paths of a list at their first occurrence.
\<close>

definition diskHash :: "(bytes \<Rightarrow> bytes) \<Rightarrow> (string \<Rightarrow> bytes option) \<Rightarrow> string \<rightharpoonup> string" where
  "diskHash sum256 readFile p = map_option (computeFileHash sum256) (readFile p)"

fun firstOccurrences :: "'a list \<Rightarrow> 'a list" where
  "firstOccurrences [] = []"
| "firstOccurrences (x # xs) = x # removeAll x (firstOccurrences xs)"


section \<open>Folder graph (pkg/sync/service.go)\<close>

text \<open>
  The functions of \<open>path/filepath\<close> that the package calls belong to the
  standard library and depend on the platform. They are parameters: \<open>Rel\<close>
  answers \<open>None\<close> where the Go function returns an error, \<open>Dir\<close> and
  \<open>ToSlash\<close> are total.
\<close>

record filepath =
  Rel :: "string \<Rightarrow> string \<Rightarrow> string option"
  Dir :: "string \<Rightarrow> string"
  ToSlash :: "string \<Rightarrow> string"

text \<open>\<open>detectFolderFromPath\<close> (service.go, 136-148).\<close>

definition detectFolderFromPath :: "filepath \<Rightarrow> Service \<Rightarrow> string \<Rightarrow> string" where
  "detectFolderFromPath fp s filePath =
     (case Rel fp (dashboardsDir s) (Dir fp filePath) of
        None \<Rightarrow> []
      | Some rel0 \<Rightarrow>
          (let rel = ToSlash fp rel0 in
           if rel = ''.'' \<or> rel = [] then [] else rel))"

text \<open>
  \<open>strings.Split\<close> and \<open>strings.Join\<close>, for the one-character separator the
  package passes. Splitting the empty string gives one empty part.
\<close>

fun Split :: "string \<Rightarrow> char \<Rightarrow> string list" where
  "Split [] sep = [[]]"
| "Split (c # s) sep =
     (if c = sep then [] # Split s sep
      else (case Split s sep of [] \<Rightarrow> [[c]] | p # ps \<Rightarrow> (c # p) # ps))"

fun Join :: "string list \<Rightarrow> char \<Rightarrow> string" where
  "Join [] sep = []"
| "Join [p] sep = p"
| "Join (p # q # ps) sep = p @ sep # Join (q # ps) sep"

text \<open>
  \<open>FolderNode\<close> (service.go, 151-157). Nodes are shared through pointers: the
  map returned by \<open>BuildFolderGraph\<close> and the \<open>Children\<close> slices point to the same
  objects, and the reconciler writes \<open>ID\<close> and \<open>UID\<close> through them. The model
  keeps the nodes in a store; a pointer is an index into it, and a fresh node is
  allocated at the end.
\<close>

record FolderNode =
  Name :: string
  FullPath :: string
  Children :: "nat list"
  UID :: string
  ID :: int

record Store =
  heap :: "FolderNode list"

text \<open>
  The Go map \<open>map[string]*FolderNode\<close> is a list of key/pointer pairs, looked up
  with \<^const>\<open>map_of\<close>; a key is added only when it is absent.
\<close>

record FolderGraph = Store +
  graph :: "(string \<times> nat) list"

text \<open>
  The two writes of the inner loop: \<open>graph[currPath] = &FolderNode{Name: parts[i],
  FullPath: currPath}\<close> allocates a node and adds the key, and
  \<open>graph[parentPath].Children = append(graph[parentPath].Children, graph[currPath])\<close>
  writes through the parent pointer.
\<close>

definition allocNode :: "string \<Rightarrow> string \<Rightarrow> FolderGraph \<Rightarrow> FolderGraph" where
  "allocNode name path g =
     g\<lparr>heap := heap g @ [\<lparr>Name = name, FullPath = path, Children = [], UID = [], ID = 0\<rparr>],
       graph := graph g @ [(path, length (heap g))]\<rparr>"

definition appendChild :: "nat \<Rightarrow> nat \<Rightarrow> FolderGraph \<Rightarrow> FolderGraph" where
  "appendChild parent child g =
     g\<lparr>heap := (heap g)[parent := (heap g ! parent)
                                 \<lparr>Children := Children (heap g ! parent) @ [child]\<rparr>]\<rparr>"

text \<open>
  One round of the inner loop of \<open>BuildFolderGraph\<close> (service.go, 174-194), at
  index \<open>i\<close>. Reading \<open>graph[parentPath].Children\<close> through a missing key is a
  nil dereference, which panics: \<open>None\<close>.
\<close>

definition linkPart :: "string list \<Rightarrow> nat \<Rightarrow> FolderGraph \<Rightarrow> FolderGraph option" where
  "linkPart parts i g =
     (let currPath = Join (take (Suc i) parts) CHR ''/'';
          g1 = (case map_of (graph g) currPath of
                  Some _ \<Rightarrow> g
                | None \<Rightarrow> allocNode (parts ! i) currPath g)
      in if i > 0 then
           (let parentPath = Join (take i parts) CHR ''/'' in
            case map_of (graph g1) parentPath of
              None \<Rightarrow> None
            | Some parent \<Rightarrow>
                (case map_of (graph g1) currPath of
                   None \<Rightarrow> None
                 | Some child \<Rightarrow>
                     if child \<in> set (Children (heap g1 ! parent)) then Some g1
                     else Some (appendChild parent child g1)))
         else Some g1)"

text \<open>The inner loop \<open>for i := 0; i < len(parts); i++\<close>.\<close>

function partsLoop :: "string list \<Rightarrow> nat \<Rightarrow> FolderGraph \<Rightarrow> FolderGraph option" where
  "partsLoop parts i g =
     (if i < length parts then
        (case linkPart parts i g of
           None \<Rightarrow> None
         | Some g' \<Rightarrow> partsLoop parts (Suc i) g')
      else Some g)"
  by pat_completeness auto
termination
  by (relation "measure (\<lambda>(parts, i, g). length parts - i)") auto

text \<open>
  The relative folder of one dashboard path (service.go, 164-165); the error of
  \<open>filepath.Rel\<close> is discarded, which leaves the empty string.
\<close>

definition relFolder :: "filepath \<Rightarrow> string \<Rightarrow> string \<Rightarrow> string" where
  "relFolder fp baseDir path =
     ToSlash fp (case Rel fp baseDir (Dir fp path) of None \<Rightarrow> [] | Some rel \<Rightarrow> rel)"

text \<open>The outer loop over \<open>dashboardPaths\<close> (service.go, 163-196).\<close>

fun pathsLoop :: "filepath \<Rightarrow> string \<Rightarrow> string list \<Rightarrow> FolderGraph \<Rightarrow> FolderGraph option" where
  "pathsLoop fp baseDir [] g = Some g"
| "pathsLoop fp baseDir (path # rest) g =
     (let rel = relFolder fp baseDir path in
      if rel = ''.'' \<or> rel = [] then pathsLoop fp baseDir rest g
      else (case partsLoop (Split rel CHR ''/'') 0 g of
              None \<Rightarrow> None
            | Some g' \<Rightarrow> pathsLoop fp baseDir rest g'))"

text \<open>
  \<open>BuildFolderGraph\<close> (service.go, 160-199). The map starts empty and every
  node it points to is allocated by this call, so the store starts empty too;
  \<open>None\<close> is a panic.
\<close>

definition BuildFolderGraph :: "filepath \<Rightarrow> string list \<Rightarrow> string \<Rightarrow> FolderGraph option" where
  "BuildFolderGraph fp dashboardPaths baseDir =
     pathsLoop fp baseDir dashboardPaths \<lparr>heap = [], graph = []\<rparr>"

text \<open>
  \<open>HasParent\<close> (service.go, 202-211). Go visits the map in an unspecified order;
  the answer does not depend on it.
\<close>

fun HasParent_loop :: "nat \<Rightarrow> FolderNode list \<Rightarrow> (string \<times> nat) list \<Rightarrow> bool" where
  "HasParent_loop node h [] = False"
| "HasParent_loop node h ((k, n) # rest) =
     (if node \<in> set (Children (h ! n)) then True else HasParent_loop node h rest)"

definition HasParent :: "nat \<Rightarrow> FolderGraph \<Rightarrow> bool" where
  "HasParent node g = HasParent_loop node (heap g) (graph g)"

text \<open>
  Reference notions for the statements about the forest: the nodes of a graph
  as pairs of key and name, its edges as pairs of the parent's key and the
  child's full path, and the folder segments a list of dashboard paths asks for.
\<close>

definition nodeSet :: "FolderGraph \<Rightarrow> (string \<times> string) set" where
  "nodeSet g = (\<lambda>(k, a). (k, Name (heap g ! a))) ` set (graph g)"

definition edgeSet :: "FolderGraph \<Rightarrow> (string \<times> string) set" where
  "edgeSet g =
     {(k, FullPath (heap g ! c)) | k a c. (k, a) \<in> set (graph g) \<and> c \<in> set (Children (heap g ! a))}"

definition folderParts :: "filepath \<Rightarrow> string \<Rightarrow> string \<Rightarrow> string list" where
  "folderParts fp baseDir path =
     (let rel = relFolder fp baseDir path in
      if rel = ''.'' \<or> rel = [] then [] else Split rel CHR ''/'')"

text \<open>
  The invariant of the loops: the \<open>j\<close>-th key of the map points to the \<open>j\<close>-th
  node of the store, keys are distinct, a node carries its key as full path and
  the last segment of the key as name, children are distinct, allocated after
  their parent and one segment longer, and a key with a separator has a parent.
\<close>

definition keyAt :: "FolderGraph \<Rightarrow> nat \<Rightarrow> string" where
  "keyAt g j = fst (graph g ! j)"

definition graphInv :: "FolderGraph \<Rightarrow> bool" where
  "graphInv g \<longleftrightarrow>
     map snd (graph g) = [0..<length (heap g)] \<and>
     distinct (map fst (graph g)) \<and>
     (\<forall>j<length (heap g).
        FullPath (heap g ! j) = keyAt g j \<and>
        Name (heap g ! j) = last (Split (keyAt g j) CHR ''/'') \<and>
        distinct (Children (heap g ! j)) \<and>
        (\<forall>c\<in>set (Children (heap g ! j)).
           j < c \<and> c < length (heap g) \<and>
           keyAt g c = keyAt g j @ CHR ''/'' # Name (heap g ! c)) \<and>
        (CHR ''/'' \<in> set (keyAt g j) \<longrightarrow>
           (\<exists>p<length (heap g). j \<in> set (Children (heap g ! p)))))"

text \<open>
  The keys and the edges one list of segments contributes: every non-empty
  prefix, and every prefix of two segments or more below the prefix one segment
  shorter.
\<close>

definition partKeys :: "string list \<Rightarrow> string set" where
  "partKeys parts = {Join (take (Suc j) parts) CHR ''/'' | j. j < length parts}"

definition partEdges :: "string list \<Rightarrow> (string \<times> string) set" where
  "partEdges parts =
     {(Join (take j parts) CHR ''/'', Join (take (Suc j) parts) CHR ''/'') | j.
        0 < j \<and> j < length parts}"

section \<open>The path functions of the standard library\<close>

text \<open>
  \<open>path/filepath\<close> is not part of the repository. The definitions of the
  package above take its functions as parameters; this section gives an
  implementation of them, written from the documentation of the package, for
  the two separator conventions: \<open>/\<close> alone (Unix), and \<open>\\<close> with \<open>/\<close>
  accepted as well (Windows). Volume names and the case-insensitive comparison
  of Windows are left out.
\<close>

datatype GOOS = Unix | Windows

fun Separator :: "GOOS \<Rightarrow> char" where
  "Separator Unix = CHR ''/''"
| "Separator Windows = CHR 0x5C"

fun IsPathSeparator :: "GOOS \<Rightarrow> char \<Rightarrow> bool" where
  "IsPathSeparator Unix c = (c = CHR ''/'')"
| "IsPathSeparator Windows c = (c = CHR 0x5C \<or> c = CHR ''/'')"

text \<open>The elements of a path: the text between separators, empty elements included.\<close>

definition elements :: "GOOS \<Rightarrow> string \<Rightarrow> string list" where
  "elements os path =
     Split (map (\<lambda>c. if IsPathSeparator os c then Separator os else c) path) (Separator os)"

text \<open>
  \<open>Clean\<close>: empty and \<open>.\<close> elements are dropped, an inner \<open>..\<close> removes the
  element before it, a \<open>..\<close> at the start of a rooted path is dropped and kept
  otherwise. The result of an empty outcome is \<open>.\<close>.
\<close>

fun cleanElems :: "bool \<Rightarrow> string list \<Rightarrow> string list \<Rightarrow> string list" where
  "cleanElems rooted out [] = out"
| "cleanElems rooted out (e # es) =
     (if e = [] \<or> e = ''.'' then cleanElems rooted out es
      else if e = ''..'' then
        (if out \<noteq> [] \<and> last out \<noteq> ''..'' then cleanElems rooted (butlast out) es
         else if rooted then cleanElems rooted out es
         else cleanElems rooted (out @ [''..'']) es)
      else cleanElems rooted (out @ [e]) es)"

definition Clean :: "GOOS \<Rightarrow> string \<Rightarrow> string" where
  "Clean os path =
     (if path = [] then ''.''
      else
        (let rooted = IsPathSeparator os (hd path);
             out = cleanElems rooted [] (elements os path)
         in if rooted then Separator os # Join out (Separator os)
            else if out = [] then ''.''
            else Join out (Separator os)))"

text \<open>\<open>Dir\<close>: everything up to the last separator, cleaned.\<close>

definition filepath_Dir :: "GOOS \<Rightarrow> string \<Rightarrow> string" where
  "filepath_Dir os path =
     Clean os (rev (dropWhile (\<lambda>c. \<not> IsPathSeparator os c) (rev path)))"

text \<open>\<open>ToSlash\<close>: every separator character becomes a slash.\<close>

definition filepath_ToSlash :: "GOOS \<Rightarrow> string \<Rightarrow> string" where
  "filepath_ToSlash os path =
     (if Separator os = CHR ''/'' then path
      else map (\<lambda>c. if c = Separator os then CHR ''/'' else c) path)"

text \<open>
  \<open>Rel\<close>: both paths are cleaned; equal paths give \<open>.\<close>; a rooted and an
  unrooted path cannot be related, nor can a base that climbs with \<open>..\<close> where
  the target does not. Otherwise the common leading elements are dropped, every
  remaining element of the base becomes \<open>..\<close>, and the remaining elements of the
  target follow.
\<close>

fun dropCommon :: "string list \<Rightarrow> string list \<Rightarrow> string list \<times> string list" where
  "dropCommon (b # bs) (t # ts) = (if b = t then dropCommon bs ts else (b # bs, t # ts))"
| "dropCommon bs ts = (bs, ts)"

definition relElements :: "GOOS \<Rightarrow> string \<Rightarrow> string list" where
  "relElements os cleaned =
     (if cleaned = ''.'' then [] else filter (\<lambda>e. e \<noteq> []) (elements os cleaned))"

definition filepath_Rel :: "GOOS \<Rightarrow> string \<Rightarrow> string \<Rightarrow> string option" where
  "filepath_Rel os basepath targpath =
     (let base = Clean os basepath; targ = Clean os targpath in
      if targ = base then Some ''.''
      else if (hd base = Separator os) \<noteq> (hd targ = Separator os) then None
      else
        (case dropCommon (relElements os base) (relElements os targ) of
           (bs, ts) \<Rightarrow>
             if bs \<noteq> [] \<and> hd bs = ''..'' then None
             else Some (Join (map (\<lambda>_. ''..'') bs @ ts) (Separator os))))"

definition goFilepath :: "GOOS \<Rightarrow> filepath" where
  "goFilepath os =
     \<lparr>Rel = filepath_Rel os, Dir = filepath_Dir os, ToSlash = filepath_ToSlash os\<rparr>"

section \<open>Grafana client (pkg/grafana/client.go)\<close>

subsection \<open>Splitting folder paths\<close>

text \<open>
  A Go string is a sequence of bytes, and \<open>for _, c := range s\<close> walks it one
  code point at a time: at each position it decodes one UTF-8 sequence and
  moves past it; where the bytes are no valid sequence the value is the
  replacement character U+FFFD and the loop moves one byte on. \<open>string(c)\<close> is
  the UTF-8 encoding of the code point, that is, the bytes just read, or
  \<open>EF BF BD\<close> for the replacement character.

  \<open>DecodeRuneInString\<close> (unicode/utf8) is written here from its documentation
  and its table of first bytes; the result is \<open>string(c)\<close> and the number of
  bytes read.
\<close>

definition RuneError :: string where
  "RuneError = [CHR 0xEF, CHR 0xBF, CHR 0xBD]"

definition inRange :: "char \<Rightarrow> nat \<Rightarrow> nat \<Rightarrow> bool" where
  "inRange c lo hi \<longleftrightarrow> lo \<le> of_char c \<and> (of_char c :: nat) \<le> hi"

fun DecodeRuneInString :: "string \<Rightarrow> string \<times> nat" where
  "DecodeRuneInString [] = (RuneError, 0)"
| "DecodeRuneInString (b0 # s) =
     (if inRange b0 0x00 0x7F then ([b0], 1)
      else if inRange b0 0xC2 0xDF then
        (case s of
           b1 # _ \<Rightarrow> if inRange b1 0x80 0xBF then ([b0, b1], 2) else (RuneError, 1)
         | _ \<Rightarrow> (RuneError, 1))
      else if inRange b0 0xE0 0xEF then
        (case s of
           b1 # b2 # _ \<Rightarrow>
             if inRange b1 (if b0 = CHR 0xE0 then 0xA0 else 0x80)
                          (if b0 = CHR 0xED then 0x9F else 0xBF)
                \<and> inRange b2 0x80 0xBF
             then ([b0, b1, b2], 3) else (RuneError, 1)
         | _ \<Rightarrow> (RuneError, 1))
      else if inRange b0 0xF0 0xF4 then
        (case s of
           b1 # b2 # b3 # _ \<Rightarrow>
             if inRange b1 (if b0 = CHR 0xF0 then 0x90 else 0x80)
                          (if b0 = CHR 0xF4 then 0x8F else 0xBF)
                \<and> inRange b2 0x80 0xBF \<and> inRange b3 0x80 0xBF
             then ([b0, b1, b2, b3], 4) else (RuneError, 1)
         | _ \<Rightarrow> (RuneError, 1))
      else (RuneError, 1))"

text \<open>
  The values \<open>string(c)\<close> of a \<open>range\<close> loop over a string, in order. The first
  argument counts the bytes of the current sequence still to pass.
\<close>

fun rangeString_aux :: "nat \<Rightarrow> string \<Rightarrow> string list" where
  "rangeString_aux skip [] = []"
| "rangeString_aux 0 (b # s) =
     (case DecodeRuneInString (b # s) of (c, n) \<Rightarrow> c # rangeString_aux (n - 1) s)"
| "rangeString_aux (Suc skip) (b # s) = rangeString_aux skip s"

definition rangeString :: "string \<Rightarrow> string list" where
  "rangeString s = rangeString_aux 0 s"

text \<open>
  \<open>replaceSeparators\<close>, \<open>splitBy\<close>, \<open>splitPath\<close> and \<open>splitFolderPath\<close>
  (client.go, 547-595). The loops take the values \<open>string(c)\<close> one by one; a
  code point is the slash or the backslash when its encoding is that one byte.
  The backslash is \<open>CHR 0x5C\<close>.
\<close>

fun replaceSeparators_loop :: "string list \<Rightarrow> string \<Rightarrow> string" where
  "replaceSeparators_loop [] sep = []"
| "replaceSeparators_loop (c # cs) sep =
     (if c = [CHR ''/''] \<or> c = [CHR 0x5C] then sep @ replaceSeparators_loop cs sep
      else c @ replaceSeparators_loop cs sep)"

definition replaceSeparators :: "string \<Rightarrow> string \<Rightarrow> string" where
  "replaceSeparators s sep = replaceSeparators_loop (rangeString s) sep"

fun splitBy_loop :: "string list \<Rightarrow> string \<Rightarrow> string list \<Rightarrow> string \<Rightarrow> string list" where
  "splitBy_loop [] sep parts current =
     (if current \<noteq> [] then parts @ [current] else parts)"
| "splitBy_loop (c # cs) sep parts current =
     (if c = sep then
        (if current \<noteq> [] then splitBy_loop cs sep (parts @ [current]) []
         else splitBy_loop cs sep parts current)
      else splitBy_loop cs sep parts (current @ c))"

definition splitBy :: "string \<Rightarrow> string \<Rightarrow> string list" where
  "splitBy s sep = splitBy_loop (rangeString s) sep [] []"

definition splitPath :: "string \<Rightarrow> string list" where
  "splitPath path = splitBy (replaceSeparators path ''/'') ''/''"

definition splitFolderPath :: "string \<Rightarrow> string list" where
  "splitFolderPath path =
     (if path = [] \<or> path = ''.'' then []
      else filter (\<lambda>p. p \<noteq> [] \<and> p \<noteq> ''.'') (splitPath path))"

text \<open>
  Reference notions. \<open>adjacent d xs\<close>: two neighbouring elements of \<open>xs\<close> are
  both \<open>d\<close>. A degenerate path is made of separators and single dots only:
  its bytes are slashes, backslashes and dots, with no two dots next to each
  other. \<open>wellEncoded c\<close>: the bytes \<open>c\<close> are the encoding of exactly one code
  point.
\<close>

fun adjacent :: "'a \<Rightarrow> 'a list \<Rightarrow> bool" where
  "adjacent d (x # y # s) = ((x = d \<and> y = d) \<or> adjacent d (y # s))"
| "adjacent d s = False"

definition degenerate :: "string \<Rightarrow> bool" where
  "degenerate path \<longleftrightarrow>
     set path \<subseteq> {CHR ''/'', CHR 0x5C, CHR ''.''} \<and> \<not> adjacent CHR ''.'' path"

definition wellEncoded :: "string \<Rightarrow> bool" where
  "wellEncoded c \<longleftrightarrow> c \<noteq> [] \<and> DecodeRuneInString c = (c, length c)"

subsection \<open>The remote API\<close>

text \<open>
  One entry of the folder list the server returns (client.go, 168-173).
\<close>

record remote_folder =
  rfID :: int
  rfUID :: string
  rfTitle :: string
  rfParentUID :: string

text \<open>
  The outcome of one HTTP request: \<open>NoResponse\<close> when \<open>client.Do\<close> returns an
  error, otherwise the status code, the body, and the value the body decodes
  to as JSON (\<open>None\<close> when decoding fails).
\<close>

datatype 'a response = NoResponse | Response int string "'a option"

text \<open>
  The server and the transport are outside the program. They are the parameter
  \<open>api\<close>: the listing request, by parent UID (empty for the root listing), and
  the create request, by title and parent UID (empty when the payload carries
  none), both acting on a state \<open>'w\<close> of the world outside.
\<close>

record 'w api =
  list_folders :: "string \<Rightarrow> 'w \<Rightarrow> remote_folder list response \<times> 'w"
  create_folder :: "string \<Rightarrow> string \<Rightarrow> 'w \<Rightarrow> (int \<times> string) response \<times> 'w"

text \<open>The requests the client has issued, with their outcome, in order.\<close>

datatype exchange =
    Listed string string "remote_folder list response"
  | Posted string string "(int \<times> string) response"

text \<open>The errors the client returns (\<open>fmt.Errorf\<close> and transport errors).\<close>

datatype error =
    TransportError
  | ListFailed string
  | DecodeError
  | CheckExistingFailed error
  | ExistsButCannotRetrieve string
  | CreateFailed string string
  | EmptyFolderPath

text \<open>
  The state the client works on: the store of folder nodes shared with the
  sync package, the cache \<open>folders\<close> of the \<open>Client\<close> struct (client.go, 16-23;
  its other fields configure the transport), the world outside, and the trace
  of requests.
\<close>

record 'w World = Store +
  folders :: "string \<rightharpoonup> int"
  remote :: 'w
  trace :: "exchange list"

text \<open>\<open>GetFolderIDByPath\<close> (client.go, 123-131).\<close>

definition GetFolderIDByPath :: "'w World \<Rightarrow> string \<Rightarrow> int" where
  "GetFolderIDByPath st folderPath =
     (if folderPath = [] \<or> folderPath = ''.'' then 0
      else (case folders st folderPath of Some i \<Rightarrow> i | None \<Rightarrow> 0))"

text \<open>
  The search loop of \<open>getFolderByTitle\<close> (client.go, 180-193): the first entry
  with the title and the parent wins; \<open>(0, "")\<close> when there is none.
\<close>

fun findFolder :: "string \<Rightarrow> string \<Rightarrow> remote_folder list \<Rightarrow> int \<times> string" where
  "findFolder title parentUid [] = (0, [])"
| "findFolder title parentUid (folder # rest) =
     (if rfTitle folder = title then
        (if parentUid = [] \<and> rfParentUID folder = [] then (rfID folder, rfUID folder)
         else if parentUid \<noteq> [] \<and> rfParentUID folder = parentUid
              then (rfID folder, rfUID folder)
              else findFolder title parentUid rest)
      else findFolder title parentUid rest)"

text \<open>\<open>getFolderByTitle\<close> (client.go, 144-194).\<close>

definition getFolderByTitle ::
  "'w api \<Rightarrow> string \<Rightarrow> string \<Rightarrow> 'w World \<Rightarrow> (error + int \<times> string) \<times> 'w World" where
  "getFolderByTitle api title parentUid st =
     (case list_folders api parentUid (remote st) of
        (resp, w) \<Rightarrow>
          (let st1 = st\<lparr>remote := w, trace := trace st @ [Listed title parentUid resp]\<rparr> in
           case resp of
             NoResponse \<Rightarrow> (Inl TransportError, st1)
           | Response code body decoded \<Rightarrow>
               if code \<noteq> 200 then (Inl (ListFailed body), st1)
               else (case decoded of
                       None \<Rightarrow> (Inl DecodeError, st1)
                     | Some fs \<Rightarrow> (Inr (findFolder title parentUid fs), st1))))"

text \<open>The POST of a new folder (client.go, 215-231 and 489-505).\<close>

definition postFolder ::
  "'w api \<Rightarrow> string \<Rightarrow> string \<Rightarrow> 'w World \<Rightarrow> (int \<times> string) response \<times> 'w World" where
  "postFolder api title parentUid st =
     (case create_folder api title parentUid (remote st) of
        (resp, w) \<Rightarrow>
          (resp, st\<lparr>remote := w, trace := trace st @ [Posted title parentUid resp]\<rparr>))"

text \<open>
  The three places where a node takes its identifiers (client.go, 209-212,
  240-243, 256-259): the fields of the node and the cache entry of its path.
\<close>

definition adopt :: "nat \<Rightarrow> int \<Rightarrow> string \<Rightarrow> 'w World \<Rightarrow> 'w World" where
  "adopt node i u st =
     st\<lparr>heap := (heap st)[node := (heap st ! node)\<lparr>ID := i, UID := u\<rparr>],
        folders := (folders st)(FullPath (heap st ! node) \<mapsto> i)\<rparr>"

text \<open>
  The loop over \<open>node.Children\<close> (client.go, 264-268): it stops at the first
  child that fails. \<open>f\<close> is the recursive call; \<open>None\<close> is a call that does not
  return.
\<close>

fun forChildren ::
  "(nat \<Rightarrow> 'w World \<Rightarrow> (error option \<times> 'w World) option) \<Rightarrow> nat list \<Rightarrow> 'w World
     \<Rightarrow> (error option \<times> 'w World) option" where
  "forChildren f [] st = Some (None, st)"
| "forChildren f (child # rest) st =
     (case f child st of
        None \<Rightarrow> None
      | Some (Some err, st') \<Rightarrow> Some (Some err, st')
      | Some (None, st') \<Rightarrow> forChildren f rest st')"

text \<open>
  \<open>CreateFolderTreeFromNode\<close> (client.go, 197-270). The recursion follows the
  pointers of the store and need not end on a cyclic store; the first argument
  bounds its depth, and \<open>None\<close> is a run that exceeds it. The result is the
  returned error (\<open>None\<close> for nil) and the state the call leaves.
\<close>

fun CreateFolderTreeFromNode ::
  "nat \<Rightarrow> 'w api \<Rightarrow> nat \<Rightarrow> string \<Rightarrow> 'w World \<Rightarrow> (error option \<times> 'w World) option" where
  "CreateFolderTreeFromNode 0 api node parentUid st = None"
| "CreateFolderTreeFromNode (Suc depth) api node parentUid st =
     (case getFolderByTitle api (Name (heap st ! node)) parentUid st of
        (Inl err, st1) \<Rightarrow> Some (Some (CheckExistingFailed err), st1)
      | (Inr (existingID, existingUID), st1) \<Rightarrow>
          if existingID > 0 then
            (let st2 = adopt node existingID existingUID st1 in
             forChildren (\<lambda>child. CreateFolderTreeFromNode depth api child existingUID)
               (Children (heap st2 ! node)) st2)
          else
            (case postFolder api (Name (heap st1 ! node)) parentUid st1 of
               (NoResponse, st2) \<Rightarrow> Some (Some TransportError, st2)
             | (Response code body decoded, st2) \<Rightarrow>
                 if code \<ge> 300 then
                   (if code = 409 \<or> code = 412 then
                      (case getFolderByTitle api (Name (heap st2 ! node)) parentUid st2 of
                         (Inl err, st3) \<Rightarrow> Some (Some (ExistsButCannotRetrieve body), st3)
                       | (Inr (existingID, existingUID), st3) \<Rightarrow>
                           if existingID = 0
                           then Some (Some (ExistsButCannotRetrieve body), st3)
                           else
                             (let st4 = adopt node existingID existingUID st3 in
                              forChildren
                                (\<lambda>child. CreateFolderTreeFromNode depth api child existingUID)
                                (Children (heap st4 ! node)) st4))
                    else Some (Some (CreateFailed (Name (heap st2 ! node)) body), st2))
                 else
                   (case decoded of
                      None \<Rightarrow> Some (Some DecodeError, st2)
                    | Some (createdID, createdUID) \<Rightarrow>
                        (let st3 = adopt node createdID createdUID st2 in
                         forChildren
                           (\<lambda>child. CreateFolderTreeFromNode depth api child createdUID)
                           (Children (heap st3 ! node)) st3))))"

text \<open>
  The loop of \<open>createFolderRecursive\<close> over the segments (client.go, 466-534),
  with the loop variables \<open>currentPath\<close>, \<open>folderID\<close> and \<open>currentUID\<close>.
\<close>

fun createFolderRecursive_loop ::
  "'w api \<Rightarrow> string list \<Rightarrow> string \<Rightarrow> int \<Rightarrow> string \<Rightarrow> 'w World \<Rightarrow> (error + int) \<times> 'w World" where
  "createFolderRecursive_loop api [] currentPath folderID currentUID st = (Inr folderID, st)"
| "createFolderRecursive_loop api (name # rest) currentPath0 folderID currentUID st =
     (let currentPath = (if currentPath0 = [] then name else currentPath0 @ ''/'' @ name) in
      case getFolderByTitle api name currentUID st of
        (Inl err, st1) \<Rightarrow> (Inl (CheckExistingFailed err), st1)
      | (Inr (existingID, existingUID), st1) \<Rightarrow>
          if existingID > 0 then
            createFolderRecursive_loop api rest currentPath existingID existingUID
              (st1\<lparr>folders := (folders st1)(currentPath \<mapsto> existingID)\<rparr>)
          else
            (case postFolder api name currentUID st1 of
               (NoResponse, st2) \<Rightarrow> (Inl TransportError, st2)
             | (Response code body decoded, st2) \<Rightarrow>
                 if code \<ge> 300 then
                   (if code = 409 \<or> code = 412 then
                      (case getFolderByTitle api name currentUID st2 of
                         (Inl err, st3) \<Rightarrow> (Inl (ExistsButCannotRetrieve body), st3)
                       | (Inr (existingID, existingUID), st3) \<Rightarrow>
                           if existingID = 0
                           then (Inl (ExistsButCannotRetrieve body), st3)
                           else
                             createFolderRecursive_loop api rest currentPath existingID
                               existingUID
                               (st3\<lparr>folders := (folders st3)(currentPath \<mapsto> existingID)\<rparr>))
                    else (Inl (CreateFailed name body), st2))
                 else
                   (case decoded of
                      None \<Rightarrow> (Inl DecodeError, st2)
                    | Some (createdID, createdUID) \<Rightarrow>
                        createFolderRecursive_loop api rest currentPath createdID createdUID
                          (st2\<lparr>folders := (folders st2)(currentPath \<mapsto> createdID)\<rparr>))))"

text \<open>\<open>createFolderRecursive\<close> (client.go, 456-537).\<close>

definition createFolderRecursive ::
  "'w api \<Rightarrow> string \<Rightarrow> string \<Rightarrow> 'w World \<Rightarrow> (error + int) \<times> 'w World" where
  "createFolderRecursive api folderPath parentUID st =
     (let parts = splitFolderPath folderPath in
      if length parts = 0 then (Inl EmptyFolderPath, st)
      else createFolderRecursive_loop api parts [] 0 parentUID st)"

text \<open>\<open>CreateFolderTree\<close> (client.go, 134-141).\<close>

definition CreateFolderTree ::
  "'w api \<Rightarrow> string \<Rightarrow> 'w World \<Rightarrow> (error + int) \<times> 'w World" where
  "CreateFolderTree api folderPath st =
     (case folders st folderPath of
        Some i \<Rightarrow> (Inr i, st)
      | None \<Rightarrow> createFolderRecursive api folderPath [] st)"

subsection \<open>Notions used in the statements about the client\<close>

text \<open>
  The block that looks a folder up, creates it when it is missing and queries
  again after a conflict occurs twice in the source, in
  \<open>CreateFolderTreeFromNode\<close> (201-261) and in \<open>createFolderRecursive\<close>
  (474-533). \<open>findOrCreate\<close> is that block as one function, returning the
  identifiers the caller then stores; the lemmas \<open>CreateFolderTreeFromNode_block\<close>
  and \<open>createFolderRecursive_loop_block\<close> relate the two functions to it.
\<close>

definition findOrCreate ::
  "'w api \<Rightarrow> string \<Rightarrow> string \<Rightarrow> 'w World \<Rightarrow> (error + int \<times> string) \<times> 'w World" where
  "findOrCreate api name parentUid st =
     (case getFolderByTitle api name parentUid st of
        (Inl err, st1) \<Rightarrow> (Inl (CheckExistingFailed err), st1)
      | (Inr (existingID, existingUID), st1) \<Rightarrow>
          if existingID > 0 then (Inr (existingID, existingUID), st1)
          else
            (case postFolder api name parentUid st1 of
               (NoResponse, st2) \<Rightarrow> (Inl TransportError, st2)
             | (Response code body decoded, st2) \<Rightarrow>
                 if code \<ge> 300 then
                   (if code = 409 \<or> code = 412 then
                      (case getFolderByTitle api name parentUid st2 of
                         (Inl err, st3) \<Rightarrow> (Inl (ExistsButCannotRetrieve body), st3)
                       | (Inr (existingID, existingUID), st3) \<Rightarrow>
                           if existingID = 0
                           then (Inl (ExistsButCannotRetrieve body), st3)
                           else (Inr (existingID, existingUID), st3))
                    else (Inl (CreateFailed name body), st2))
                 else
                   (case decoded of
                      None \<Rightarrow> (Inl DecodeError, st2)
                    | Some (createdID, createdUID) \<Rightarrow> (Inr (createdID, createdUID), st2))))"



text \<open>
  The shape of the stores \<open>BuildFolderGraph\<close> produces: children are allocated
  after their parent, no two nodes share a full path, and the name of a node is
  the last segment of its full path. Two stores have the same shape when they
  differ in the fields \<open>ID\<close> and \<open>UID\<close> only.
\<close>

definition ascending :: "FolderNode list \<Rightarrow> bool" where
  "ascending h \<longleftrightarrow> (\<forall>a<length h. \<forall>c\<in>set (Children (h ! a)). a < c \<and> c < length h)"

definition distinctPaths :: "FolderNode list \<Rightarrow> bool" where
  "distinctPaths h \<longleftrightarrow> distinct (map FullPath h)"


definition sameShape :: "FolderNode list \<Rightarrow> FolderNode list \<Rightarrow> bool" where
  "sameShape h h' \<longleftrightarrow>
     length h' = length h \<and>
     (\<forall>a<length h. Name (h' ! a) = Name (h ! a) \<and> FullPath (h' ! a) = FullPath (h ! a) \<and>
                      Children (h' ! a) = Children (h ! a))"


text \<open>
  The states of the client, as \<open>main\<close> drives it (cmd/grafana-git-sync/main.go,
  141-176): it starts with an empty cache (\<open>NewClient\<close>, client.go, 24-33) and
  nothing sent; the store is replaced by the result of \<open>BuildFolderGraph\<close>; the
  cache is written by \<open>CreateFolderTreeFromNode\<close>, called on nodes of the store,
  and by \<open>CreateFolderTree\<close>; the world outside may change between two calls.
\<close>

inductive reachable :: "filepath \<Rightarrow> 'w api \<Rightarrow> 'w World \<Rightarrow> bool"
  for fp :: filepath and api :: "'w api" where
  NewClient: "heap st = [] \<Longrightarrow> folders st = Map.empty \<Longrightarrow> trace st = [] \<Longrightarrow>
              reachable fp api st"
| Rebuild: "reachable fp api st \<Longrightarrow> BuildFolderGraph fp paths baseDir = Some g \<Longrightarrow>
            reachable fp api (st\<lparr>heap := heap g\<rparr>)"
| Outside: "reachable fp api st \<Longrightarrow> reachable fp api (st\<lparr>remote := w\<rparr>)"
| FromNode: "reachable fp api st \<Longrightarrow> node < length (heap st) \<Longrightarrow>
             CreateFolderTreeFromNode depth api node parentUid st = Some (err, st') \<Longrightarrow>
             reachable fp api st'"
| Tree: "reachable fp api st \<Longrightarrow> CreateFolderTree api folderPath st = (res, st') \<Longrightarrow>
         reachable fp api st'"

subsection \<open>A reference server\<close>

text \<open>
  A server that keeps a table of folders and hands out identifiers from a
  counter: a listing returns the folders of the requested parent in table
  order, a create request is refused with status 409 when the parent already
  has a folder of that title and otherwise appends the folder with the next
  identifier. \<open>mkuid\<close> is the way it derives a UID. The body texts are left
  empty; the client reads them for error messages only. The listing is
  complete: the page size the client asks for (\<open>limit=1000\<close>) is taken to
  cover the folders of one parent.
\<close>

record remote_state =
  table :: "remote_folder list"
  nextID :: int

definition refServer :: "(int \<Rightarrow> string) \<Rightarrow> remote_state api" where
  "refServer mkuid =
     \<lparr>list_folders = (\<lambda>parentUid r.
        (Response 200 [] (Some (filter (\<lambda>f. rfParentUID f = parentUid) (table r))), r)),
      create_folder = (\<lambda>title parentUid r.
        if \<exists>f\<in>set (table r). rfTitle f = title \<and> rfParentUID f = parentUid
        then (Response 409 [] None, r)
        else (Response 200 [] (Some (nextID r, mkuid (nextID r))),
              r\<lparr>table := table r @
                   [\<lparr>rfID = nextID r, rfUID = mkuid (nextID r), rfTitle = title,
                     rfParentUID = parentUid\<rparr>],
                nextID := nextID r + 1\<rparr>))\<rparr>"


text \<open>
  A server on which the client loses every race: a rival creates the folder
  just before the client's create request arrives, so the request finds the
  folder in the table (where the rival, or anyone before, has put it) and is
  refused with status 409. The server answers \<open>listings\<close> more listing
  requests and none after that (the connection fails).
\<close>

record race_state = remote_state +
  listings :: nat

definition racingServer :: "(int \<Rightarrow> string) \<Rightarrow> race_state api" where
  "racingServer mkuid =
     \<lparr>list_folders = (\<lambda>parentUid r.
        if listings r = 0 then (NoResponse, r)
        else (Response 200 [] (Some (filter (\<lambda>f. rfParentUID f = parentUid) (table r))),
              r\<lparr>listings := listings r - 1\<rparr>)),
      create_folder = (\<lambda>title parentUid r.
        if \<exists>f\<in>set (table r). rfTitle f = title \<and> rfParentUID f = parentUid
        then (Response 409 [] None, r)
        else (Response 409 [] None,
              r\<lparr>table := table r @
                   [\<lparr>rfID = nextID r, rfUID = mkuid (nextID r), rfTitle = title,
                     rfParentUID = parentUid\<rparr>],
                nextID := nextID r + 1\<rparr>))\<rparr>"

text \<open>A server that lists no folder and refuses every create request.\<close>

definition refusingServer :: "int \<Rightarrow> string \<Rightarrow> unit api" where
  "refusingServer code body =
     \<lparr>list_folders = (\<lambda>parentUid w. (Response 200 [] (Some []), w)),
      create_folder = (\<lambda>title parentUid w. (Response code body None, w))\<rparr>"




section \<open>Properties of change detection\<close>
lemma HasFileChanged_fst:
  "fst (HasFileChanged sum256 s path content) \<longleftrightarrow>
     (fileHashes s path \<noteq> Some (computeFileHash sum256 content))"
  by (auto simp: HasFileChanged_def Let_def split: option.splits)

lemma HasFileChanged_table:
  "fileHashes (snd (HasFileChanged sum256 s path content)) =
     (fileHashes s)(path \<mapsto> computeFileHash sum256 content)"
  by (auto simp: HasFileChanged_def Let_def split: option.splits)

lemma filter_removeAll: "filter P (removeAll x ys) = filter (\<lambda>y. P y \<and> y \<noteq> x) ys"
  by (induction ys) auto

lemma loop_changed:
  "fst (GetChangedFiles_loop sum256 readFile s changed ps) =
     changed @ filter (\<lambda>p. diskHash sum256 readFile p \<noteq> None \<and>
                          fileHashes s p \<noteq> diskHash sum256 readFile p) (firstOccurrences ps)"
proof (induction ps arbitrary: s changed)
  case Nil
  then show ?case by simp
next
  case (Cons p ps)
  show ?case
  proof (cases "readFile p")
    case None
    then have np: "diskHash sum256 readFile p = None" by (simp add: diskHash_def)
    show ?thesis using None np Cons.IH[of s changed]
      by (auto simp: filter_removeAll intro!: filter_cong)
  next
    case (Some c)
    let ?h = "computeFileHash sum256 c"
    let ?s' = "snd (HasFileChanged sum256 s p c)"
    have dp: "diskHash sum256 readFile p = Some ?h" using Some by (simp add: diskHash_def)
    have tbl: "fileHashes ?s' = (fileHashes s)(p \<mapsto> ?h)" by (rule HasFileChanged_table)
    have eq: "filter (\<lambda>q. diskHash sum256 readFile q \<noteq> None \<and> fileHashes ?s' q \<noteq> diskHash sum256 readFile q) (firstOccurrences ps)
      = filter (\<lambda>q. diskHash sum256 readFile q \<noteq> None \<and> fileHashes s q \<noteq> diskHash sum256 readFile q) (removeAll p (firstOccurrences ps))"
      unfolding filter_removeAll using dp tbl by (auto intro!: filter_cong)
    obtain b s1 where hb: "HasFileChanged sum256 s p c = (b, s1)" by (cases "HasFileChanged sum256 s p c") auto
    have s1: "s1 = ?s'" using hb by simp
    have b: "b \<longleftrightarrow> fileHashes s p \<noteq> Some ?h" using HasFileChanged_fst[of sum256 s p c] hb by simp
    show ?thesis
    proof (cases b)
      case True
      then show ?thesis using Some hb Cons.IH[of ?s' "changed @ [p]"] eq b dp unfolding s1[symmetric] by simp
    next
      case False
      then show ?thesis using Some hb Cons.IH[of ?s' "changed"] eq b dp unfolding s1[symmetric] by simp
    qed
  qed
qed

lemma loop_table:
  "fileHashes (snd (GetChangedFiles_loop sum256 readFile s changed ps)) q =
     (if q \<in> set ps \<and> readFile q \<noteq> None then diskHash sum256 readFile q else fileHashes s q)"
proof (induction ps arbitrary: s changed)
  case Nil
  then show ?case by simp
next
  case (Cons p ps)
  show ?case
  proof (cases "readFile p")
    case None
    then show ?thesis using Cons.IH[of s changed] by auto
  next
    case (Some c)
    let ?s' = "snd (HasFileChanged sum256 s p c)"
    obtain b s1 where hb: "HasFileChanged sum256 s p c = (b, s1)" by (cases "HasFileChanged sum256 s p c") auto
    have tbl: "fileHashes s1 = (fileHashes s)(p \<mapsto> computeFileHash sum256 c)" using HasFileChanged_table[of sum256 s p c] hb by simp
    show ?thesis using Some hb tbl Cons.IH[of s1 "changed @ [p]"] Cons.IH[of s1 "changed"]
      by (cases b) (auto simp: diskHash_def)
  qed
qed

lemma set_firstOccurrences: "set (firstOccurrences xs) = set xs"
  by (induction xs) auto

lemma distinct_firstOccurrences: "distinct (firstOccurrences xs)"
  by (induction xs) (auto simp: set_firstOccurrences distinct_removeAll)

lemma firstOccurrences_distinct: "distinct xs \<Longrightarrow> firstOccurrences xs = xs"
  by (induction xs) (auto simp: set_firstOccurrences)

text \<open>
  Claim C4. \<open>HasFileChanged\<close> answers true exactly when the table has no
  entry for the path or an entry other than the fingerprint of the content, and
  after the call the entry of the path is that fingerprint, whatever the answer;
  no other entry changes. A path without an entry is reported as changed.
\<close>
theorem HasFileChanged_contract:
  "fst (HasFileChanged sum256 s path content) =
     (fileHashes s path = None \<or> fileHashes s path \<noteq> Some (computeFileHash sum256 content))
   \<and> fileHashes (snd (HasFileChanged sum256 s path content)) =
       (fileHashes s)(path \<mapsto> computeFileHash sum256 content)
   \<and> fileHashes (snd (HasFileChanged sum256 s path content)) path =
       Some (computeFileHash sum256 content)"
  by (auto simp: HasFileChanged_fst HasFileChanged_table)

theorem HasFileChanged_contract_witness:
  "fileHashes (NewService [] [] ''/d'') ''/d/x.json'' = None
   \<and> fst (HasFileChanged (\<lambda>b. b) (NewService [] [] ''/d'') ''/d/x.json'' [1, 171])
   \<and> fileHashes (snd (HasFileChanged (\<lambda>b. b) (NewService [] [] ''/d'') ''/d/x.json'' [1, 171]))
        ''/d/x.json'' = Some ''01ab''
   \<and> \<not> fst (HasFileChanged (\<lambda>b. b)
              (snd (HasFileChanged (\<lambda>b. b) (NewService [] [] ''/d'') ''/d/x.json'' [1, 171]))
              ''/d/x.json'' [1, 171])"
proof -
  let ?s = "NewService [] [] ''/d''"
  let ?s1 = "snd (HasFileChanged (\<lambda>b. b) ?s ''/d/x.json'' [1, 171])"
  have h: "computeFileHash (\<lambda>b. b) [1, 171] = ''01ab''"
    by (simp add: computeFileHash_def hextable_def)
  have n: "fileHashes ?s ''/d/x.json'' = None" by (simp add: NewService_def)
  show ?thesis
    using HasFileChanged_contract[of "\<lambda>b. b" ?s "''/d/x.json''" "[1, 171]"]
          HasFileChanged_contract[of "\<lambda>b. b" ?s1 "''/d/x.json''" "[1, 171]"] h n
    by simp
qed

text \<open>
  Claim C8. \<open>GetChangedFiles\<close> always returns a nil error. The paths it
  returns are the readable paths whose fingerprint differs from the table, in
  input order, each at its first occurrence (all of them when the input has no
  repetition). Afterwards the table holds the fingerprint on disk for every
  readable input path and is unchanged elsewhere; an unreadable path is not
  returned and its entry is untouched.
\<close>
theorem GetChangedFiles_skips_unreadable:
  assumes "GetChangedFiles sum256 readFile s allFiles = ((changed, err), s')"
  shows "err = None
    \<and> changed = filter (\<lambda>p. readFile p \<noteq> None \<and> fileHashes s p \<noteq> diskHash sum256 readFile p)
                  (firstOccurrences allFiles)
    \<and> (distinct allFiles \<longrightarrow>
         changed = filter (\<lambda>p. readFile p \<noteq> None \<and> fileHashes s p \<noteq> diskHash sum256 readFile p)
                     allFiles)
    \<and> (\<forall>p. fileHashes s' p =
            (if p \<in> set allFiles \<and> readFile p \<noteq> None then diskHash sum256 readFile p
             else fileHashes s p))
    \<and> (\<forall>p. readFile p = None \<longrightarrow> p \<notin> set changed \<and> fileHashes s' p = fileHashes s p)"
proof -
  have c: "changed = fst (GetChangedFiles_loop sum256 readFile s [] allFiles)"
    and s': "s' = snd (GetChangedFiles_loop sum256 readFile s [] allFiles)"
    and e: "err = None"
    using assms by (auto simp: GetChangedFiles_def split: prod.splits)
  have dn: "(diskHash sum256 readFile p \<noteq> None) = (readFile p \<noteq> None)" for p
    by (simp add: diskHash_def)
  have 1: "changed = filter (\<lambda>p. readFile p \<noteq> None \<and> fileHashes s p \<noteq> diskHash sum256 readFile p)
                  (firstOccurrences allFiles)"
    unfolding c loop_changed dn by simp
  have 2: "fileHashes s' p =
            (if p \<in> set allFiles \<and> readFile p \<noteq> None then diskHash sum256 readFile p
             else fileHashes s p)" for p
    unfolding s' by (rule loop_table)
  have 3: "p \<notin> set changed" if "readFile p = None" for p
    using that unfolding 1 by simp
  show ?thesis using e 1 2 3 by (auto simp: firstOccurrences_distinct)
qed

theorem GetChangedFiles_skips_unreadable_witness:
  "GetChangedFiles (\<lambda>b. b) [''a'' \<mapsto> [1], ''c'' \<mapsto> [2]]
      ((NewService [] [] [])\<lparr>fileHashes := [''c'' \<mapsto> ''02'']\<rparr>) [''a'', ''b'', ''c'', ''a'']
     = (([''a''], None),
        (NewService [] [] [])\<lparr>fileHashes := [''c'' \<mapsto> ''02'', ''a'' \<mapsto> ''01'']\<rparr>)
   \<and> [''c'' \<mapsto> ''02'', ''a'' \<mapsto> ''01''] ''b'' = (None :: string option)"
proof -
  let ?rf = "[''a'' \<mapsto> [1], ''c'' \<mapsto> [2 :: 8 word]]"
  let ?s = "(NewService [] [] [])\<lparr>fileHashes := [''c'' \<mapsto> ''02'']\<rparr>"
  have run: "GetChangedFiles (\<lambda>b. b) ?rf ?s [''a'', ''b'', ''c'', ''a'']
     = (([''a''], None),
        (NewService [] [] [])\<lparr>fileHashes := [''c'' \<mapsto> ''02'', ''a'' \<mapsto> ''01'']\<rparr>)"
    by (simp add: GetChangedFiles_def HasFileChanged_def computeFileHash_def hextable_def
                  NewService_def)
  show ?thesis
    using GetChangedFiles_skips_unreadable[OF run] run by simp
qed

section \<open>Properties of the folder graph\<close>

lemma Split_nonempty: "Split s sep \<noteq> []"
  by (induction s) (auto split: list.splits)

lemma Split_no_sep: "p \<in> set (Split s sep) \<Longrightarrow> sep \<notin> set p"
proof (induction s arbitrary: p)
  case Nil
  then show ?case by simp
next
  case (Cons c s)
  then show ?case
    by (cases "Split s sep") (auto split: if_splits)
qed

lemma Join_snoc: "ps \<noteq> [] \<Longrightarrow> Join (ps @ [p]) sep = Join ps sep @ sep # p"
  by (induction ps sep rule: Join.induct) auto

lemma Join_take_Suc:
  assumes "0 < i" "i < length parts"
  shows "Join (take (Suc i) parts) sep = Join (take i parts) sep @ sep # parts ! i"
proof -
  have "take (Suc i) parts = take i parts @ [parts ! i]"
    using assms by (simp add: take_Suc_conv_app_nth)
  moreover have "take i parts \<noteq> []" using assms by auto
  ultimately show ?thesis by (simp add: Join_snoc)
qed

lemma Join_take_1: "0 < length parts \<Longrightarrow> Join (take (Suc 0) parts) sep = parts ! 0"
  by (cases parts) auto

lemma Split_append_sep:
  "sep \<notin> set p \<Longrightarrow> Split (k @ sep # p) sep = Split k sep @ [p]"
proof (induction k)
  case Nil
  have "Split p sep = [p]" using Nil
  proof (induction p)
    case Nil then show ?case by simp
  next
    case (Cons a p) then show ?case by (auto)
  qed
  then show ?case by simp
next
  case (Cons c k)
  then show ?case by (cases "Split k sep") (auto simp: Split_nonempty)
qed

lemma last_Split_append_sep:
  "sep \<notin> set p \<Longrightarrow> last (Split (k @ sep # p) sep) = p"
  by (simp add: Split_append_sep)

lemma Split_no_sep_id: "sep \<notin> set p \<Longrightarrow> Split p sep = [p]"
  by (induction p) auto

lemma sep_append_inj:
  assumes "k @ sep # n = k' @ sep # (n'::string)" "sep \<notin> set n" "sep \<notin> set n'"
  shows "k = k' \<and> n = n'"
proof -
  have a: "Split (k @ sep # n) sep = Split k sep @ [n]"
    using assms(2) by (rule Split_append_sep)
  have b: "Split (k' @ sep # n') sep = Split k' sep @ [n']"
    using assms(3) by (rule Split_append_sep)
  have "Split k sep @ [n] = Split k' sep @ [n']"
    using a b assms(1) by metis
  then have "n = n'" by simp
  with assms(1) show ?thesis by simp
qed

lemma inv_len: "graphInv g \<Longrightarrow> length (graph g) = length (heap g)"
proof -
  assume "graphInv g"
  then have "map snd (graph g) = [0..<length (heap g)]" by (simp add: graphInv_def)
  then have "length (map snd (graph g)) = length [0..<length (heap g)]" by simp
  then show ?thesis by simp
qed

lemma inv_nth:
  assumes "graphInv g" "j < length (heap g)"
  shows "graph g ! j = (keyAt g j, j)"
proof -
  have m: "map snd (graph g) = [0..<length (heap g)]" using assms(1) by (simp add: graphInv_def)
  have l: "j < length (graph g)" using assms inv_len by simp
  have "snd (graph g ! j) = map snd (graph g) ! j" using l by simp
  also have "\<dots> = j" using m assms(2) by simp
  finally show ?thesis by (simp add: keyAt_def prod_eq_iff)
qed

lemma inv_mem:
  assumes "graphInv g"
  shows "(k, a) \<in> set (graph g) \<longleftrightarrow> a < length (heap g) \<and> keyAt g a = k"
proof
  assume "(k, a) \<in> set (graph g)"
  then obtain j where j: "j < length (graph g)" "graph g ! j = (k, a)"
    by (auto simp: in_set_conv_nth)
  then have "j < length (heap g)" using inv_len[OF assms] by simp
  then have "graph g ! j = (keyAt g j, j)" by (rule inv_nth[OF assms])
  with j \<open>j < length (heap g)\<close> show "a < length (heap g) \<and> keyAt g a = k" by auto
next
  assume a: "a < length (heap g) \<and> keyAt g a = k"
  then have "graph g ! a = (k, a)" using inv_nth[OF assms] by simp
  moreover have "a < length (graph g)" using a inv_len[OF assms] by simp
  ultimately show "(k, a) \<in> set (graph g)" by (metis nth_mem)
qed

lemma inv_lookup:
  assumes "graphInv g"
  shows "map_of (graph g) k = Some a \<longleftrightarrow> a < length (heap g) \<and> keyAt g a = k"
proof -
  have d: "distinct (map fst (graph g))" using assms by (simp add: graphInv_def)
  have "map_of (graph g) k = Some a \<longleftrightarrow> (k, a) \<in> set (graph g)"
    using d by (auto intro: map_of_is_SomeI dest: map_of_SomeD)
  then show ?thesis using inv_mem[OF assms] by simp
qed

lemma inv_lookup_None:
  assumes "graphInv g"
  shows "map_of (graph g) k = None \<longleftrightarrow> (\<forall>a<length (heap g). keyAt g a \<noteq> k)"
proof -
  have "map_of (graph g) k = None \<longleftrightarrow> (\<forall>a. map_of (graph g) k \<noteq> Some a)" by auto
  then show ?thesis using inv_lookup[OF assms] by auto
qed

lemma inv_keys:
  assumes "graphInv g"
  shows "fst ` set (graph g) = {keyAt g j | j. j < length (heap g)}"
proof -
  have "\<And>k. k \<in> fst ` set (graph g) \<longleftrightarrow> (\<exists>a. (k, a) \<in> set (graph g))"
    by force
  then show ?thesis using inv_mem[OF assms] by auto
qed

lemma inv_key_inj:
  assumes "graphInv g" "a < length (heap g)" "b < length (heap g)" "keyAt g a = keyAt g b"
  shows "a = b"
proof -
  have "map_of (graph g) (keyAt g a) = Some a" using inv_lookup[OF assms(1)] assms(2) by simp
  moreover have "map_of (graph g) (keyAt g a) = Some b" using inv_lookup[OF assms(1)] assms(3,4) by simp
  ultimately show ?thesis by simp
qed

lemma edgeSet_index:
  assumes "graphInv g"
  shows "edgeSet g = {(keyAt g a, FullPath (heap g ! c)) | a c.
                        a < length (heap g) \<and> c \<in> set (Children (heap g ! a))}"
  unfolding edgeSet_def using inv_mem[OF assms] by auto

lemma inv_name_no_sep:
  assumes "graphInv g" "c < length (heap g)"
  shows "CHR ''/'' \<notin> set (Name (heap g ! c))"
proof -
  have "Name (heap g ! c) = last (Split (keyAt g c) CHR ''/'')"
    using assms unfolding graphInv_def by blast
  moreover have "last (Split (keyAt g c) CHR ''/'') \<in> set (Split (keyAt g c) CHR ''/'')"
    by (simp add: Split_nonempty)
  ultimately show ?thesis using Split_no_sep by metis
qed

lemma inv_fullpath:
  assumes "graphInv g" "j < length (heap g)"
  shows "FullPath (heap g ! j) = keyAt g j"
  using assms unfolding graphInv_def by blast

lemma inv_child:
  assumes "graphInv g" "j < length (heap g)" "c \<in> set (Children (heap g ! j))"
  shows "j < c" "c < length (heap g)" "keyAt g c = keyAt g j @ CHR ''/'' # Name (heap g ! c)"
  using assms unfolding graphInv_def by blast+

lemma inv_parent:
  assumes "graphInv g" "j < length (heap g)" "CHR ''/'' \<in> set (keyAt g j)"
  shows "\<exists>p<length (heap g). j \<in> set (Children (heap g ! p))"
  using assms unfolding graphInv_def by blast

lemma linkPart_existing:
  assumes inv: "graphInv g" and i: "i < length parts"
    and ns: "\<forall>p\<in>set parts. CHR ''/'' \<notin> set p"
    and par: "0 < i \<longrightarrow> Join (take i parts) CHR ''/'' \<in> fst ` set (graph g)"
    and ex: "map_of (graph g) (Join (take (Suc i) parts) CHR ''/'') = Some c"
  shows "linkPart parts i g = Some g"
    and "0 < i \<longrightarrow> (Join (take i parts) CHR ''/'', Join (take (Suc i) parts) CHR ''/'') \<in> edgeSet g"
proof -
  let ?curr = "Join (take (Suc i) parts) CHR ''/''"
  let ?parent = "Join (take i parts) CHR ''/''"
  have c: "c < length (heap g)" "keyAt g c = ?curr" using inv_lookup[OF inv] ex by auto
  have both: "linkPart parts i g = Some g \<and> (0 < i \<longrightarrow> (?parent, ?curr) \<in> edgeSet g)"
  proof (cases "0 < i")
    case False
    then show ?thesis using ex by (simp add: linkPart_def Let_def)
  next
    case True
    have curr: "?curr = ?parent @ CHR ''/'' # parts ! i"
      using True i by (rule Join_take_Suc)
    have pi: "CHR ''/'' \<notin> set (parts ! i)" using ns i by simp
    from par True obtain pa where pa: "(?parent, pa) \<in> set (graph g)" by force
    then have pa': "pa < length (heap g)" "keyAt g pa = ?parent" using inv_mem[OF inv] by auto
    have lpa: "map_of (graph g) ?parent = Some pa" using inv_lookup[OF inv] pa' by simp
    have "CHR ''/'' \<in> set (keyAt g c)" using c curr by simp
    then obtain p where p: "p < length (heap g)" "c \<in> set (Children (heap g ! p))"
      using inv_parent[OF inv c(1)] by auto
    have kc: "keyAt g c = keyAt g p @ CHR ''/'' # Name (heap g ! c)"
      using inv_child(3)[OF inv p] .
    have "keyAt g p @ CHR ''/'' # Name (heap g ! c) = ?parent @ CHR ''/'' # parts ! i"
      using kc c(2) curr by simp
    then have "keyAt g p = ?parent"
      using sep_append_inj inv_name_no_sep[OF inv c(1)] pi by blast
    then have "p = pa" using inv_key_inj[OF inv p(1) pa'(1)] pa'(2) by simp
    then have mem: "c \<in> set (Children (heap g ! pa))" using p by simp
    have fp: "FullPath (heap g ! c) = ?curr" using inv_fullpath[OF inv c(1)] c(2) by simp
    have "(keyAt g pa, FullPath (heap g ! c)) \<in> edgeSet g"
      unfolding edgeSet_index[OF inv] using pa'(1) mem by blast
    then have e: "(?parent, ?curr) \<in> edgeSet g" using pa'(2) fp by simp
    have "linkPart parts i g = Some g"
      using True ex lpa mem by (simp add: linkPart_def Let_def)
    then show ?thesis using e by simp
  qed
  show "linkPart parts i g = Some g" using both by simp
  show "0 < i \<longrightarrow> (?parent, ?curr) \<in> edgeSet g" using both by simp
qed

lemma alloc_heap_length: "length (heap (allocNode nm k g)) = Suc (length (heap g))"
  by (simp add: allocNode_def)

lemma alloc_heap_old: "j < length (heap g) \<Longrightarrow> heap (allocNode nm k g) ! j = heap g ! j"
  by (simp add: allocNode_def nth_append)

lemma alloc_heap_new:
  "heap (allocNode nm k g) ! length (heap g) =
     \<lparr>Name = nm, FullPath = k, Children = [], UID = [], ID = 0\<rparr>"
  by (simp add: allocNode_def)

lemma alloc_graph: "graph (allocNode nm k g) = graph g @ [(k, length (heap g))]"
  by (simp add: allocNode_def)

lemma alloc_key_old:
  "graphInv g \<Longrightarrow> j < length (heap g) \<Longrightarrow> keyAt (allocNode nm k g) j = keyAt g j"
  using inv_len[of g] by (simp add: keyAt_def alloc_graph nth_append)

lemma alloc_key_new:
  "graphInv g \<Longrightarrow> keyAt (allocNode nm k g) (length (heap g)) = k"
  using inv_len[of g] by (simp add: keyAt_def alloc_graph nth_append)

lemma child_heap_length: "length (heap (appendChild pa c g)) = length (heap g)"
  by (simp add: appendChild_def)

lemma child_graph: "graph (appendChild pa c g) = graph g"
  by (simp add: appendChild_def)

lemma child_key: "keyAt (appendChild pa c g) j = keyAt g j"
  by (simp add: keyAt_def child_graph)

lemma child_name: "j < length (heap g) \<Longrightarrow> Name (heap (appendChild pa c g) ! j) = Name (heap g ! j)"
  by (cases "j = pa") (simp_all add: appendChild_def)

lemma child_fullpath:
  "j < length (heap g) \<Longrightarrow> FullPath (heap (appendChild pa c g) ! j) = FullPath (heap g ! j)"
  by (cases "j = pa") (simp_all add: appendChild_def)

lemma child_children:
  "j < length (heap g) \<Longrightarrow>
     Children (heap (appendChild pa c g) ! j) =
       (if j = pa then Children (heap g ! j) @ [c] else Children (heap g ! j))"
  by (cases "j = pa") (simp_all add: appendChild_def)

lemma alloc_inv_root:
  assumes inv: "graphInv g"
    and fresh: "\<forall>a<length (heap g). keyAt g a \<noteq> k"
    and k: "CHR ''/'' \<notin> set k"
  shows "graphInv (allocNode k k g)"
proof -
  let ?g = "allocNode k k g"
  let ?n = "length (heap g)"
  have m: "map snd (graph g) = [0..<?n]" and d: "distinct (map fst (graph g))"
    using inv by (simp_all add: graphInv_def)
  have knew: "k \<notin> fst ` set (graph g)" using fresh inv_keys[OF inv] by auto
  have 1: "map snd (graph ?g) = [0..<length (heap ?g)]"
    using m by (simp add: alloc_graph alloc_heap_length)
  have 2: "distinct (map fst (graph ?g))"
    using d knew by (simp add: alloc_graph)
  have 3: "FullPath (heap ?g ! j) = keyAt ?g j \<and>
        Name (heap ?g ! j) = last (Split (keyAt ?g j) CHR ''/'') \<and>
        distinct (Children (heap ?g ! j)) \<and>
        (\<forall>c\<in>set (Children (heap ?g ! j)).
           j < c \<and> c < length (heap ?g) \<and>
           keyAt ?g c = keyAt ?g j @ CHR ''/'' # Name (heap ?g ! c)) \<and>
        (CHR ''/'' \<in> set (keyAt ?g j) \<longrightarrow>
           (\<exists>p<length (heap ?g). j \<in> set (Children (heap ?g ! p))))"
    if j: "j < length (heap ?g)" for j
  proof (cases "j < ?n")
    case True
    have h: "heap ?g ! j = heap g ! j" using True by (rule alloc_heap_old)
    have kj: "keyAt ?g j = keyAt g j" using inv True by (rule alloc_key_old)
    have a: "FullPath (heap g ! j) = keyAt g j" using inv_fullpath[OF inv True] .
    have b: "Name (heap g ! j) = last (Split (keyAt g j) CHR ''/'')"
      using inv True unfolding graphInv_def by blast
    have c: "distinct (Children (heap g ! j))"
      using inv True unfolding graphInv_def by blast
    have e: "j < c \<and> c < length (heap ?g) \<and>
           keyAt ?g c = keyAt ?g j @ CHR ''/'' # Name (heap ?g ! c)"
      if cm: "c \<in> set (Children (heap g ! j))" for c
    proof -
      have cc: "j < c" "c < ?n" "keyAt g c = keyAt g j @ CHR ''/'' # Name (heap g ! c)"
        using inv_child[OF inv True cm] by auto
      show ?thesis using cc kj alloc_key_old[OF inv cc(2)] alloc_heap_old[OF cc(2)]
        by (simp add: alloc_heap_length)
    qed
    have f: "\<exists>p<length (heap ?g). j \<in> set (Children (heap ?g ! p))"
      if sl: "CHR ''/'' \<in> set (keyAt g j)"
    proof -
      obtain p where p: "p < ?n" "j \<in> set (Children (heap g ! p))"
        using inv_parent[OF inv True sl] by auto
      have "j \<in> set (Children (heap ?g ! p))" using p alloc_heap_old[OF p(1), of k k] by simp
      moreover have "p < length (heap ?g)" using p(1) by (simp add: alloc_heap_length)
      ultimately show ?thesis by blast
    qed
    show ?thesis using a b c e f h kj by simp
  next
    case False
    then have jn: "j = ?n" using j by (simp add: alloc_heap_length)
    have sp: "Split k CHR ''/'' = [k]" using k by (rule Split_no_sep_id)
    show ?thesis unfolding jn using k sp by (simp add: alloc_heap_new alloc_key_new[OF inv])
  qed
  show ?thesis unfolding graphInv_def using 1 2 3 by blast
qed

lemma alloc_inv_child:
  assumes inv: "graphInv g"
    and fresh: "\<forall>a<length (heap g). keyAt g a \<noteq> k"
    and pa: "pa < length (heap g)"
    and k: "k = keyAt g pa @ CHR ''/'' # nm"
    and nm: "CHR ''/'' \<notin> set nm"
  shows "graphInv (appendChild pa (length (heap g)) (allocNode nm k g))"
proof -
  let ?n = "length (heap g)"
  let ?g1 = "allocNode nm k g"
  let ?g = "appendChild pa ?n ?g1"
  have m: "map snd (graph g) = [0..<?n]" and d: "distinct (map fst (graph g))"
    using inv by (simp_all add: graphInv_def)
  have knew: "k \<notin> fst ` set (graph g)" using fresh inv_keys[OF inv] by auto
  have len: "length (heap ?g) = Suc ?n" by (simp add: child_heap_length alloc_heap_length)
  have l1: "length (heap ?g1) = Suc ?n" by (simp add: alloc_heap_length)
  have key_old: "keyAt ?g j = keyAt g j" if "j < ?n" for j
    using alloc_key_old[OF inv that] by (simp add: child_key)
  have key_new: "keyAt ?g ?n = k"
    using alloc_key_new[OF inv] by (simp add: child_key)
  have name_old: "Name (heap ?g ! j) = Name (heap g ! j)" if "j < ?n" for j
    using that alloc_heap_old[OF that, of nm k] by (simp add: child_name l1)
  have name_new: "Name (heap ?g ! ?n) = nm"
    by (simp add: child_name l1 alloc_heap_new)
  have fp_old: "FullPath (heap ?g ! j) = FullPath (heap g ! j)" if "j < ?n" for j
    using that alloc_heap_old[OF that, of nm k] by (simp add: child_fullpath l1)
  have fp_new: "FullPath (heap ?g ! ?n) = k"
    by (simp add: child_fullpath l1 alloc_heap_new)
  have ch_old: "Children (heap ?g ! j) =
      (if j = pa then Children (heap g ! j) @ [?n] else Children (heap g ! j))" if "j < ?n" for j
    using that alloc_heap_old[OF that, of nm k] by (auto simp add: child_children l1)
  have ch_new: "Children (heap ?g ! ?n) = []"
    using pa by (simp add: child_children l1 alloc_heap_new)
  have 1: "map snd (graph ?g) = [0..<length (heap ?g)]"
    using m by (simp add: child_graph alloc_graph len)
  have 2: "distinct (map fst (graph ?g))"
    using d knew by (simp add: child_graph alloc_graph)
  have 3: "FullPath (heap ?g ! j) = keyAt ?g j \<and>
        Name (heap ?g ! j) = last (Split (keyAt ?g j) CHR ''/'') \<and>
        distinct (Children (heap ?g ! j)) \<and>
        (\<forall>c\<in>set (Children (heap ?g ! j)).
           j < c \<and> c < length (heap ?g) \<and>
           keyAt ?g c = keyAt ?g j @ CHR ''/'' # Name (heap ?g ! c)) \<and>
        (CHR ''/'' \<in> set (keyAt ?g j) \<longrightarrow>
           (\<exists>p<length (heap ?g). j \<in> set (Children (heap ?g ! p))))"
    if j: "j < length (heap ?g)" for j
  proof (cases "j < ?n")
    case True
    have a: "FullPath (heap g ! j) = keyAt g j" using inv_fullpath[OF inv True] .
    have b: "Name (heap g ! j) = last (Split (keyAt g j) CHR ''/'')"
      using inv True unfolding graphInv_def by blast
    have c: "distinct (Children (heap g ! j))"
      using inv True unfolding graphInv_def by blast
    have old: "j < c \<and> c < ?n \<and> keyAt g c = keyAt g j @ CHR ''/'' # Name (heap g ! c)"
      if cm: "c \<in> set (Children (heap g ! j))" for c
      using inv_child[OF inv True cm] by auto
    have notin: "?n \<notin> set (Children (heap g ! j))" using old by blast
    have dist: "distinct (Children (heap ?g ! j))"
      using c notin by (auto simp add: ch_old[OF True])
    have e: "j < c \<and> c < length (heap ?g) \<and>
           keyAt ?g c = keyAt ?g j @ CHR ''/'' # Name (heap ?g ! c)"
      if cm: "c \<in> set (Children (heap ?g ! j))" for c
    proof (cases "c = ?n")
      case True
      then have "j = pa" using cm notin ch_old[OF \<open>j < ?n\<close>] by (auto split: if_splits)
      then show ?thesis using True key_new key_old[OF pa] name_new k pa len by simp
    next
      case False
      then have "c \<in> set (Children (heap g ! j))"
        using cm ch_old[OF \<open>j < ?n\<close>] by (auto split: if_splits)
      then have cc: "j < c" "c < ?n" "keyAt g c = keyAt g j @ CHR ''/'' # Name (heap g ! c)"
        using old by auto
      show ?thesis using cc key_old[OF cc(2)] key_old[OF \<open>j < ?n\<close>] name_old[OF cc(2)] len
        by simp
    qed
    have f: "\<exists>p<length (heap ?g). j \<in> set (Children (heap ?g ! p))"
      if sl: "CHR ''/'' \<in> set (keyAt g j)"
    proof -
      obtain p where p: "p < ?n" "j \<in> set (Children (heap g ! p))"
        using inv_parent[OF inv True sl] by auto
      have "j \<in> set (Children (heap ?g ! p))" using p ch_old[OF p(1)] by auto
      moreover have "p < length (heap ?g)" using p(1) len by simp
      ultimately show ?thesis by blast
    qed
    show ?thesis using a b dist e f fp_old[OF True] name_old[OF True] key_old[OF True]
      by simp
  next
    case False
    then have jn: "j = ?n" using j len by simp
    have sp: "last (Split k CHR ''/'') = nm" unfolding k using nm by (rule last_Split_append_sep)
    have "?n \<in> set (Children (heap ?g ! pa))" using ch_old[OF pa] by auto
    moreover have "pa < length (heap ?g)" using pa len by simp
    ultimately have par: "\<exists>p<length (heap ?g). ?n \<in> set (Children (heap ?g ! p))" by blast
    show ?thesis unfolding jn using sp par fp_new name_new ch_new key_new by simp
  qed
  show ?thesis unfolding graphInv_def using 1 2 3 by blast
qed

lemma alloc_keys:
  "fst ` set (graph (allocNode nm k g)) = insert k (fst ` set (graph g))"
  by (auto simp: alloc_graph)

lemma child_keys:
  "fst ` set (graph (appendChild pa c g)) = fst ` set (graph g)"
  by (simp add: child_graph)

lemma alloc_edges_root:
  assumes inv: "graphInv g"
    and fresh: "\<forall>a<length (heap g). keyAt g a \<noteq> k"
    and k: "CHR ''/'' \<notin> set k"
  shows "edgeSet (allocNode k k g) = edgeSet g"
proof -
  let ?g = "allocNode k k g"
  let ?n = "length (heap g)"
  have inv': "graphInv ?g" using assms by (rule alloc_inv_root)
  have "(x \<in> edgeSet ?g) = (x \<in> edgeSet g)" for x
  proof
    assume "x \<in> edgeSet ?g"
    then obtain a c where ac: "x = (keyAt ?g a, FullPath (heap ?g ! c))"
        "a < length (heap ?g)" "c \<in> set (Children (heap ?g ! a))"
      unfolding edgeSet_index[OF inv'] by blast
    have an: "a < ?n"
    proof (rule ccontr)
      assume "\<not> a < ?n"
      then have "a = ?n" using ac(2) by (simp add: alloc_heap_length)
      then show False using ac(3) by (simp add: alloc_heap_new)
    qed
    have c: "c \<in> set (Children (heap g ! a))" using ac(3) alloc_heap_old[OF an, of k k] by simp
    then have cn: "c < ?n" using inv_child[OF inv an] by simp
    have "x = (keyAt g a, FullPath (heap g ! c))"
      using ac(1) alloc_key_old[OF inv an] alloc_heap_old[OF cn, of k k] by simp
    then show "x \<in> edgeSet g" unfolding edgeSet_index[OF inv] using an c by blast
  next
    assume "x \<in> edgeSet g"
    then obtain a c where ac: "x = (keyAt g a, FullPath (heap g ! c))"
        "a < ?n" "c \<in> set (Children (heap g ! a))"
      unfolding edgeSet_index[OF inv] by blast
    have cn: "c < ?n" using inv_child[OF inv ac(2,3)] by simp
    have "x = (keyAt ?g a, FullPath (heap ?g ! c))"
      using ac(1) alloc_key_old[OF inv ac(2)] alloc_heap_old[OF cn, of k k] by simp
    moreover have "a < length (heap ?g)" using ac(2) by (simp add: alloc_heap_length)
    moreover have "c \<in> set (Children (heap ?g ! a))"
      using ac(3) alloc_heap_old[OF ac(2), of k k] by simp
    ultimately show "x \<in> edgeSet ?g" unfolding edgeSet_index[OF inv'] by blast
  qed
  then show ?thesis by blast
qed

lemma alloc_edges_child:
  assumes inv: "graphInv g"
    and fresh: "\<forall>a<length (heap g). keyAt g a \<noteq> k"
    and pa: "pa < length (heap g)"
    and k: "k = keyAt g pa @ CHR ''/'' # nm"
    and nm: "CHR ''/'' \<notin> set nm"
  shows "edgeSet (appendChild pa (length (heap g)) (allocNode nm k g)) =
           insert (keyAt g pa, k) (edgeSet g)"
proof -
  let ?n = "length (heap g)"
  let ?g1 = "allocNode nm k g"
  let ?g = "appendChild pa ?n ?g1"
  have inv': "graphInv ?g" using assms by (rule alloc_inv_child)
  have len: "length (heap ?g) = Suc ?n" by (simp add: child_heap_length alloc_heap_length)
  have l1: "length (heap ?g1) = Suc ?n" by (simp add: alloc_heap_length)
  have key_old: "keyAt ?g j = keyAt g j" if "j < ?n" for j
    using alloc_key_old[OF inv that] by (simp add: child_key)
  have fp_old: "FullPath (heap ?g ! j) = FullPath (heap g ! j)" if "j < ?n" for j
    using that alloc_heap_old[OF that, of nm k] by (simp add: child_fullpath l1)
  have fp_new: "FullPath (heap ?g ! ?n) = k"
    by (simp add: child_fullpath l1 alloc_heap_new)
  have ch_old: "Children (heap ?g ! j) =
      (if j = pa then Children (heap g ! j) @ [?n] else Children (heap g ! j))" if "j < ?n" for j
    using that alloc_heap_old[OF that, of nm k] by (auto simp add: child_children l1)
  have ch_new: "Children (heap ?g ! ?n) = []"
    using pa by (simp add: child_children l1 alloc_heap_new)
  have "(x \<in> edgeSet ?g) = (x \<in> insert (keyAt g pa, k) (edgeSet g))" for x
  proof
    assume "x \<in> edgeSet ?g"
    then obtain a c where ac: "x = (keyAt ?g a, FullPath (heap ?g ! c))"
        "a < length (heap ?g)" "c \<in> set (Children (heap ?g ! a))"
      unfolding edgeSet_index[OF inv'] by blast
    have an: "a < ?n"
    proof (rule ccontr)
      assume "\<not> a < ?n"
      then have "a = ?n" using ac(2) len by simp
      then show False using ac(3) ch_new by simp
    qed
    show "x \<in> insert (keyAt g pa, k) (edgeSet g)"
    proof (cases "c = ?n")
      case True
      have "a = pa"
      proof (rule ccontr)
        assume "a \<noteq> pa"
        then have "?n \<in> set (Children (heap g ! a))" using ac(3) True ch_old[OF an] by simp
        then show False using inv_child(2)[OF inv an] by blast
      qed
      then have "x = (keyAt g pa, k)" using ac(1) True key_old[OF pa] fp_new by simp
      then show ?thesis by simp
    next
      case False
      then have c: "c \<in> set (Children (heap g ! a))"
        using ac(3) ch_old[OF an] by (auto split: if_splits)
      then have cn: "c < ?n" using inv_child[OF inv an] by simp
      have "x = (keyAt g a, FullPath (heap g ! c))"
        using ac(1) key_old[OF an] fp_old[OF cn] by simp
      then have "x \<in> edgeSet g" unfolding edgeSet_index[OF inv] using an c by blast
      then show ?thesis by simp
    qed
  next
    assume "x \<in> insert (keyAt g pa, k) (edgeSet g)"
    then consider "x = (keyAt g pa, k)" | "x \<in> edgeSet g" by blast
    then show "x \<in> edgeSet ?g"
    proof cases
      case 1
      have "x = (keyAt ?g pa, FullPath (heap ?g ! ?n))" using 1 key_old[OF pa] fp_new by simp
      moreover have "pa < length (heap ?g)" using pa len by simp
      moreover have "?n \<in> set (Children (heap ?g ! pa))" using ch_old[OF pa] by auto
      ultimately show ?thesis unfolding edgeSet_index[OF inv'] by blast
    next
      case 2
      then obtain a c where ac: "x = (keyAt g a, FullPath (heap g ! c))"
          "a < ?n" "c \<in> set (Children (heap g ! a))"
        unfolding edgeSet_index[OF inv] by blast
      have cn: "c < ?n" using inv_child[OF inv ac(2,3)] by simp
      have "x = (keyAt ?g a, FullPath (heap ?g ! c))"
        using ac(1) key_old[OF ac(2)] fp_old[OF cn] by simp
      moreover have "a < length (heap ?g)" using ac(2) len by simp
      moreover have "c \<in> set (Children (heap ?g ! a))"
        using ac(3) ch_old[OF ac(2)] by auto
      ultimately show ?thesis unfolding edgeSet_index[OF inv'] by blast
    qed
  qed
  then show ?thesis by blast
qed

lemma linkPart_step:
  assumes inv: "graphInv g" and i: "i < length parts"
    and ns: "\<forall>p\<in>set parts. CHR ''/'' \<notin> set p"
    and par: "0 < i \<longrightarrow> Join (take i parts) CHR ''/'' \<in> fst ` set (graph g)"
  shows "\<exists>g'. linkPart parts i g = Some g' \<and> graphInv g' \<and>
           fst ` set (graph g') = insert (Join (take (Suc i) parts) CHR ''/'') (fst ` set (graph g)) \<and>
           edgeSet g' =
             (if 0 < i
              then insert (Join (take i parts) CHR ''/'', Join (take (Suc i) parts) CHR ''/'')
                     (edgeSet g)
              else edgeSet g)"
proof (cases "map_of (graph g) (Join (take (Suc i) parts) CHR ''/'')")
  case (Some c)
  have k: "Join (take (Suc i) parts) CHR ''/'' \<in> fst ` set (graph g)"
    using Some by (metis map_of_SomeD fst_conv image_eqI)
  show ?thesis
    using linkPart_existing[OF inv i ns par Some] inv k by (auto simp: insert_absorb)
next
  case None
  let ?curr = "Join (take (Suc i) parts) CHR ''/''"
  let ?parent = "Join (take i parts) CHR ''/''"
  let ?n = "length (heap g)"
  have fresh: "\<forall>a<?n. keyAt g a \<noteq> ?curr" using None inv_lookup_None[OF inv] by simp
  have pi: "CHR ''/'' \<notin> set (parts ! i)" using ns i by simp
  show ?thesis
  proof (cases "0 < i")
    case False
    then have i0: "i = 0" by simp
    have c: "?curr = parts ! i" using i unfolding i0 by (simp add: Join_take_1)
    have "linkPart parts i g = Some (allocNode (parts ! i) (parts ! i) g)"
      using None c i0 by (simp add: linkPart_def Let_def)
    moreover have "graphInv (allocNode (parts ! i) (parts ! i) g)"
      using inv fresh pi unfolding c by (rule alloc_inv_root)
    moreover have "edgeSet (allocNode (parts ! i) (parts ! i) g) = edgeSet g"
      using inv fresh pi unfolding c by (rule alloc_edges_root)
    ultimately show ?thesis using i0 c by (simp add: alloc_keys)
  next
    case True
    have curr: "?curr = ?parent @ CHR ''/'' # parts ! i"
      using True i by (rule Join_take_Suc)
    from par True obtain pa where "(?parent, pa) \<in> set (graph g)" by force
    then have pa: "pa < ?n" "keyAt g pa = ?parent" using inv_mem[OF inv] by auto
    have k: "?curr = keyAt g pa @ CHR ''/'' # parts ! i" using curr pa(2) by simp
    let ?g1 = "allocNode (parts ! i) ?curr g"
    have ne: "?parent \<noteq> ?curr" using curr by simp
    have d: "distinct (map fst (graph g))" using inv by (simp add: graphInv_def)
    have lp: "map_of (graph g) ?parent = Some pa" using inv_lookup[OF inv] pa by simp
    have l1: "map_of (graph ?g1) ?parent = Some pa"
      using lp by (simp add: alloc_graph map_add_def)
    have l2: "map_of (graph ?g1) ?curr = Some ?n"
      using None by (simp add: alloc_graph map_add_def)
    have notin: "?n \<notin> set (Children (heap ?g1 ! pa))"
      using inv_child(2)[OF inv pa(1)] alloc_heap_old[OF pa(1), of "parts ! i" ?curr] by auto
    have "linkPart parts i g = Some (appendChild pa ?n ?g1)"
      using None True l1 l2 notin by (simp add: linkPart_def Let_def)
    moreover have "graphInv (appendChild pa ?n ?g1)"
      using inv fresh pa(1) k pi by (rule alloc_inv_child)
    moreover have "edgeSet (appendChild pa ?n ?g1) = insert (keyAt g pa, ?curr) (edgeSet g)"
      using inv fresh pa(1) k pi by (rule alloc_edges_child)
    ultimately show ?thesis using True pa(2) by (simp add: child_keys alloc_keys)
  qed
qed

lemma partsLoop_inv:
  assumes "graphInv g"
    and "\<forall>p\<in>set parts. CHR ''/'' \<notin> set p"
    and "0 < i \<longrightarrow> Join (take i parts) CHR ''/'' \<in> fst ` set (graph g)"
  shows "\<exists>g'. partsLoop parts i g = Some g' \<and> graphInv g' \<and>
           fst ` set (graph g') =
             fst ` set (graph g) \<union>
             {Join (take (Suc j) parts) CHR ''/'' | j. i \<le> j \<and> j < length parts} \<and>
           edgeSet g' =
             edgeSet g \<union>
             {(Join (take j parts) CHR ''/'', Join (take (Suc j) parts) CHR ''/'') | j.
                i \<le> j \<and> 0 < j \<and> j < length parts}"
  using assms
proof (induction "length parts - i" arbitrary: i g)
  case 0
  then have "\<not> i < length parts" by simp
  then have run: "partsLoop parts i g = Some g" by (subst partsLoop.simps) simp
  have e1: "{Join (take (Suc j) parts) CHR ''/'' | j. i \<le> j \<and> j < length parts} = {}"
    using \<open>\<not> i < length parts\<close> by auto
  have e2: "{(Join (take j parts) CHR ''/'', Join (take (Suc j) parts) CHR ''/'') | j.
                i \<le> j \<and> 0 < j \<and> j < length parts} = {}"
    using \<open>\<not> i < length parts\<close> by auto
  show ?case unfolding e1 e2 using run "0.prems"(1) by simp
next
  case (Suc n)
  then have i: "i < length parts" by simp
  obtain g1 where g1: "linkPart parts i g = Some g1" "graphInv g1"
    "fst ` set (graph g1) = insert (Join (take (Suc i) parts) CHR ''/'') (fst ` set (graph g))"
    "edgeSet g1 =
       (if 0 < i
        then insert (Join (take i parts) CHR ''/'', Join (take (Suc i) parts) CHR ''/'') (edgeSet g)
        else edgeSet g)"
    using linkPart_step[OF Suc.prems(1) i Suc.prems(2) Suc.prems(3)] by blast
  have n: "n = length parts - Suc i" using Suc.hyps(2) by simp
  have par: "0 < Suc i \<longrightarrow> Join (take (Suc i) parts) CHR ''/'' \<in> fst ` set (graph g1)"
    using g1(3) by simp
  obtain g' where g': "partsLoop parts (Suc i) g1 = Some g'" "graphInv g'"
    "fst ` set (graph g') =
       fst ` set (graph g1) \<union>
       {Join (take (Suc j) parts) CHR ''/'' | j. Suc i \<le> j \<and> j < length parts}"
    "edgeSet g' =
       edgeSet g1 \<union>
       {(Join (take j parts) CHR ''/'', Join (take (Suc j) parts) CHR ''/'') | j.
          Suc i \<le> j \<and> 0 < j \<and> j < length parts}"
    using Suc.hyps(1)[OF n g1(2) Suc.prems(2) par] by blast
  have run: "partsLoop parts i g = Some g'"
    using i g1(1) g'(1) by (subst partsLoop.simps) simp
  have split1: "{Join (take (Suc j) parts) CHR ''/'' | j. i \<le> j \<and> j < length parts} =
      insert (Join (take (Suc i) parts) CHR ''/'')
        {Join (take (Suc j) parts) CHR ''/'' | j. Suc i \<le> j \<and> j < length parts}"
    (is "?A = insert ?x ?B")
  proof
    show "?A \<subseteq> insert ?x ?B"
    proof
      fix y assume "y \<in> ?A"
      then obtain j where j: "y = Join (take (Suc j) parts) CHR ''/''" "i \<le> j" "j < length parts"
        by blast
      show "y \<in> insert ?x ?B"
      proof (cases "j = i")
        case True then show ?thesis using j by simp
      next
        case False
        then have "Suc i \<le> j" using j(2) by simp
        then show ?thesis using j by blast
      qed
    qed
    show "insert ?x ?B \<subseteq> ?A" using i by auto
  qed
  have split2: "{(Join (take j parts) CHR ''/'', Join (take (Suc j) parts) CHR ''/'') | j.
                i \<le> j \<and> 0 < j \<and> j < length parts} =
      (if 0 < i then {(Join (take i parts) CHR ''/'', Join (take (Suc i) parts) CHR ''/'')} else {}) \<union>
      {(Join (take j parts) CHR ''/'', Join (take (Suc j) parts) CHR ''/'') | j.
                Suc i \<le> j \<and> 0 < j \<and> j < length parts}"
    (is "?A = ?X \<union> ?B")
  proof
    show "?A \<subseteq> ?X \<union> ?B"
    proof
      fix y assume "y \<in> ?A"
      then obtain j where j: "y = (Join (take j parts) CHR ''/'', Join (take (Suc j) parts) CHR ''/'')"
        "i \<le> j" "0 < j" "j < length parts"
        by blast
      show "y \<in> ?X \<union> ?B"
      proof (cases "j = i")
        case True then show ?thesis using j by simp
      next
        case False
        then have "Suc i \<le> j" using j(2) by simp
        then show ?thesis using j by blast
      qed
    qed
    show "?X \<union> ?B \<subseteq> ?A" using i by (auto split: if_splits)
  qed
  have keys: "fst ` set (graph g') =
             fst ` set (graph g) \<union>
             {Join (take (Suc j) parts) CHR ''/'' | j. i \<le> j \<and> j < length parts}"
    unfolding g'(3) g1(3) split1 by blast
  have edges: "edgeSet g' =
             edgeSet g \<union>
             {(Join (take j parts) CHR ''/'', Join (take (Suc j) parts) CHR ''/'') | j.
                i \<le> j \<and> 0 < j \<and> j < length parts}"
    unfolding g'(4) g1(4) split2 by (cases "0 < i") auto
  show ?case using run g'(2) keys edges by blast
qed

lemma partsLoop_all:
  assumes "graphInv g" and "\<forall>p\<in>set parts. CHR ''/'' \<notin> set p"
  shows "\<exists>g'. partsLoop parts 0 g = Some g' \<and> graphInv g' \<and>
           fst ` set (graph g') = fst ` set (graph g) \<union> partKeys parts \<and>
           edgeSet g' = edgeSet g \<union> partEdges parts"
  using partsLoop_inv[OF assms, of 0] by (simp add: partKeys_def partEdges_def)

lemma folderParts_no_sep: "\<forall>p\<in>set (folderParts fp baseDir path). CHR ''/'' \<notin> set p"
  using Split_no_sep by (auto simp: folderParts_def Let_def)

lemma pathsLoop_inv:
  assumes "graphInv g"
  shows "\<exists>g'. pathsLoop fp baseDir paths g = Some g' \<and> graphInv g' \<and>
           fst ` set (graph g') =
             fst ` set (graph g) \<union> (\<Union>p\<in>set paths. partKeys (folderParts fp baseDir p)) \<and>
           edgeSet g' =
             edgeSet g \<union> (\<Union>p\<in>set paths. partEdges (folderParts fp baseDir p))"
  using assms
proof (induction paths arbitrary: g)
  case Nil
  then show ?case by simp
next
  case (Cons path rest)
  let ?rel = "relFolder fp baseDir path"
  show ?case
  proof (cases "?rel = ''.'' \<or> ?rel = []")
    case True
    then have e: "folderParts fp baseDir path = []" by (simp add: folderParts_def)
    obtain g' where g': "pathsLoop fp baseDir rest g = Some g'" "graphInv g'"
      "fst ` set (graph g') =
         fst ` set (graph g) \<union> (\<Union>p\<in>set rest. partKeys (folderParts fp baseDir p))"
      "edgeSet g' = edgeSet g \<union> (\<Union>p\<in>set rest. partEdges (folderParts fp baseDir p))"
      using Cons.IH[OF Cons.prems] by blast
    have "pathsLoop fp baseDir (path # rest) g = Some g'" using True g'(1) by auto
    then show ?thesis using g'(2,3,4) e by (simp add: partKeys_def partEdges_def)
  next
    case False
    then have e: "folderParts fp baseDir path = Split ?rel CHR ''/''"
      by (simp add: folderParts_def)
    have ns: "\<forall>p\<in>set (Split ?rel CHR ''/''). CHR ''/'' \<notin> set p"
      using Split_no_sep by blast
    obtain g1 where g1: "partsLoop (Split ?rel CHR ''/'') 0 g = Some g1" "graphInv g1"
      "fst ` set (graph g1) = fst ` set (graph g) \<union> partKeys (Split ?rel CHR ''/'')"
      "edgeSet g1 = edgeSet g \<union> partEdges (Split ?rel CHR ''/'')"
      using partsLoop_all[OF Cons.prems ns] by blast
    obtain g' where g': "pathsLoop fp baseDir rest g1 = Some g'" "graphInv g'"
      "fst ` set (graph g') =
         fst ` set (graph g1) \<union> (\<Union>p\<in>set rest. partKeys (folderParts fp baseDir p))"
      "edgeSet g' = edgeSet g1 \<union> (\<Union>p\<in>set rest. partEdges (folderParts fp baseDir p))"
      using Cons.IH[OF g1(2)] by blast
    have "pathsLoop fp baseDir (path # rest) g = Some g'" using False g1(1) g'(1) by auto
    moreover have "fst ` set (graph g') =
             fst ` set (graph g) \<union> (\<Union>p\<in>set (path # rest). partKeys (folderParts fp baseDir p))"
      unfolding g'(3) g1(3) using e by auto
    moreover have "edgeSet g' =
             edgeSet g \<union> (\<Union>p\<in>set (path # rest). partEdges (folderParts fp baseDir p))"
      unfolding g'(4) g1(4) using e by auto
    ultimately show ?thesis using g'(2) by blast
  qed
qed

lemma graphInv_empty: "graphInv \<lparr>heap = [], graph = []\<rparr>"
  by (simp add: graphInv_def)

lemma edgeSet_empty: "edgeSet \<lparr>heap = [], graph = []\<rparr> = {}"
  by (simp add: edgeSet_def)

lemma BuildFolderGraph_inv:
  "\<exists>g. BuildFolderGraph fp paths baseDir = Some g \<and> graphInv g \<and>
       fst ` set (graph g) = (\<Union>p\<in>set paths. partKeys (folderParts fp baseDir p)) \<and>
       edgeSet g = (\<Union>p\<in>set paths. partEdges (folderParts fp baseDir p))"
  using pathsLoop_inv[OF graphInv_empty, of fp baseDir paths]
  by (simp add: BuildFolderGraph_def edgeSet_empty)

lemma nodeSet_keys:
  assumes inv: "graphInv g"
  shows "nodeSet g = (\<lambda>k. (k, last (Split k CHR ''/''))) ` fst ` set (graph g)"
proof -
  have "(case x of (k, a) \<Rightarrow> (k, Name (heap g ! a))) = (fst x, last (Split (fst x) CHR ''/''))"
    if x: "x \<in> set (graph g)" for x
  proof -
    obtain k a where ka: "x = (k, a)" by (cases x)
    then have a: "a < length (heap g)" "keyAt g a = k" using x inv_mem[OF inv] by auto
    have "Name (heap g ! a) = last (Split (keyAt g a) CHR ''/'')"
      using inv a(1) unfolding graphInv_def by blast
    then show ?thesis using ka a(2) by simp
  qed
  then have "(\<lambda>(k, a). (k, Name (heap g ! a))) ` set (graph g) =
             (\<lambda>x. (fst x, last (Split (fst x) CHR ''/''))) ` set (graph g)"
    by (intro image_cong) auto
  then show ?thesis by (simp add: nodeSet_def image_image)
qed

lemma HasParent_loop_iff:
  "HasParent_loop node h gr \<longleftrightarrow> (\<exists>(k, n)\<in>set gr. node \<in> set (Children (h ! n)))"
  by (induction node h gr rule: HasParent_loop.induct) auto

lemma HasParent_iff:
  assumes inv: "graphInv g"
  shows "HasParent a g \<longleftrightarrow> (\<exists>p<length (heap g). a \<in> set (Children (heap g ! p)))"
proof -
  have "HasParent a g \<longleftrightarrow> (\<exists>k n. (k, n) \<in> set (graph g) \<and> a \<in> set (Children (heap g ! n)))"
    by (auto simp: HasParent_def HasParent_loop_iff)
  then show ?thesis using inv_mem[OF inv] by auto
qed

lemma noDup_inv:
  assumes "graphInv g" "(k, a) \<in> set (graph g)"
  shows "distinct (Children (heap g ! a))"
proof -
  have "a < length (heap g)" using assms inv_mem by blast
  then show ?thesis using assms(1) unfolding graphInv_def by blast
qed

lemma build_sets:
  "\<exists>g. BuildFolderGraph fp paths baseDir = Some g \<and> graphInv g \<and>
       nodeSet g = (\<lambda>k. (k, last (Split k CHR ''/''))) `
                     (\<Union>p\<in>set paths. partKeys (folderParts fp baseDir p)) \<and>
       edgeSet g = (\<Union>p\<in>set paths. partEdges (folderParts fp baseDir p))"
proof -
  obtain g where g: "BuildFolderGraph fp paths baseDir = Some g" "graphInv g"
    "fst ` set (graph g) = (\<Union>p\<in>set paths. partKeys (folderParts fp baseDir p))"
    "edgeSet g = (\<Union>p\<in>set paths. partEdges (folderParts fp baseDir p))"
    using BuildFolderGraph_inv[of fp paths baseDir] by (elim exE conjE)
  have n: "nodeSet g = (\<lambda>k. (k, last (Split k CHR ''/''))) `
                     (\<Union>p\<in>set paths. partKeys (folderParts fp baseDir p))"
    unfolding nodeSet_keys[OF g(2)] g(3) ..
  show ?thesis
    by (rule exI[of _ g]) (use g(1,2,4) n in \<open>simp only: simp_thms\<close>)
qed

lemma build_same_set:
  assumes "set paths' = set paths" "BuildFolderGraph fp paths baseDir = Some g"
  shows "\<exists>g'. BuildFolderGraph fp paths' baseDir = Some g' \<and> nodeSet g' = nodeSet g \<and>
           edgeSet g' = edgeSet g \<and> (\<forall>(k, a)\<in>set (graph g'). distinct (Children (heap g' ! a)))"
proof -
  obtain g' where g': "BuildFolderGraph fp paths' baseDir = Some g'" "graphInv g'"
       "nodeSet g' = (\<lambda>k. (k, last (Split k CHR ''/''))) `
                     (\<Union>p\<in>set paths'. partKeys (folderParts fp baseDir p))"
       "edgeSet g' = (\<Union>p\<in>set paths'. partEdges (folderParts fp baseDir p))"
    using build_sets[of fp paths' baseDir] by (elim exE conjE)
  obtain g0 where g0: "BuildFolderGraph fp paths baseDir = Some g0"
       "nodeSet g0 = (\<lambda>k. (k, last (Split k CHR ''/''))) `
                     (\<Union>p\<in>set paths. partKeys (folderParts fp baseDir p))"
       "edgeSet g0 = (\<Union>p\<in>set paths. partEdges (folderParts fp baseDir p))"
    using build_sets[of fp paths baseDir] by (elim exE conjE)
  have "g0 = g" using g0(1) assms(2) by simp
  then have "nodeSet g' = nodeSet g" "edgeSet g' = edgeSet g"
    using g'(3,4) g0(2,3) assms(1) by simp_all
  moreover have "\<forall>(k, a)\<in>set (graph g'). distinct (Children (heap g' ! a))"
    using noDup_inv[OF g'(2)] by blast
  ultimately show ?thesis using g'(1) by blast
qed

lemma wit_graph:
  "BuildFolderGraph (goFilepath Unix) [''/d/a/b/x.json'', ''/d/a/c/y.json'', ''/d/z.json''] ''/d'' =
     Some \<lparr>heap =
       [\<lparr>Name = ''a'', FullPath = ''a'', Children = [1, 2], UID = [], ID = 0\<rparr>,
        \<lparr>Name = ''b'', FullPath = ''a/b'', Children = [], UID = [], ID = 0\<rparr>,
        \<lparr>Name = ''c'', FullPath = ''a/c'', Children = [], UID = [], ID = 0\<rparr>],
       graph = [(''a'', 0), (''a/b'', 1), (''a/c'', 2)]\<rparr>"
  by code_simp

lemma wit_graph_perm:
  "BuildFolderGraph (goFilepath Unix) [''/d/a/c/y.json'', ''/d/a/b/x.json''] ''/d'' =
     Some \<lparr>heap =
       [\<lparr>Name = ''a'', FullPath = ''a'', Children = [1, 2], UID = [], ID = 0\<rparr>,
        \<lparr>Name = ''c'', FullPath = ''a/c'', Children = [], UID = [], ID = 0\<rparr>,
        \<lparr>Name = ''b'', FullPath = ''a/b'', Children = [], UID = [], ID = 0\<rparr>],
       graph = [(''a'', 0), (''a/c'', 1), (''a/b'', 2)]\<rparr>"
  by code_simp

text \<open>
  Claim C6. \<open>BuildFolderGraph\<close> returns, without a panic, a map whose keys are
  distinct, where every key points to a node with that full path, no two nodes
  of the map share a full path, and every child of a node is a node of the map
  whose full path is the parent's full path, a slash and the child's name.
  The name of every node is the last segment of its full path and contains no
  slash, so a child lies exactly one segment below its parent.
\<close>
theorem BuildFolderGraph_forest_invariant:
  "\<exists>g. BuildFolderGraph fp dashboardPaths baseDir = Some g \<and>
       distinct (map fst (graph g)) \<and>
       (\<forall>(k, a)\<in>set (graph g). a < length (heap g) \<and> FullPath (heap g ! a) = k) \<and>
       (\<forall>(k, a)\<in>set (graph g). \<forall>(k', a')\<in>set (graph g).
          FullPath (heap g ! a) = FullPath (heap g ! a') \<longrightarrow> a = a') \<and>
       (\<forall>(k, a)\<in>set (graph g). \<forall>c\<in>set (Children (heap g ! a)).
          c \<in> snd ` set (graph g) \<and>
          FullPath (heap g ! c) = FullPath (heap g ! a) @ ''/'' @ Name (heap g ! c)) \<and>
       (\<forall>(k, a)\<in>set (graph g).
          CHR ''/'' \<notin> set (Name (heap g ! a)) \<and>
          Name (heap g ! a) = last (Split (FullPath (heap g ! a)) CHR ''/''))"
proof -
  obtain g where g: "BuildFolderGraph fp dashboardPaths baseDir = Some g" "graphInv g"
    using BuildFolderGraph_inv[of fp dashboardPaths baseDir] by (elim exE conjE)
  have 1: "distinct (map fst (graph g))" using g(2) by (simp add: graphInv_def)
  have 2: "a < length (heap g) \<and> FullPath (heap g ! a) = k" if "(k, a) \<in> set (graph g)" for k a
    using that inv_mem[OF g(2)] inv_fullpath[OF g(2)] by auto
  have 3: "a = a'"
    if "(k, a) \<in> set (graph g)" "(k', a') \<in> set (graph g)"
       "FullPath (heap g ! a) = FullPath (heap g ! a')" for k a k' a'
  proof -
    have "k = k'" using 2[OF that(1)] 2[OF that(2)] that(3) by simp
    then show ?thesis using that(1,2) 1 by (metis eq_key_imp_eq_value)
  qed
  have 4: "c \<in> snd ` set (graph g) \<and>
          FullPath (heap g ! c) = FullPath (heap g ! a) @ ''/'' @ Name (heap g ! c)"
    if ka: "(k, a) \<in> set (graph g)" and c: "c \<in> set (Children (heap g ! a))" for k a c
  proof -
    have a: "a < length (heap g)" "keyAt g a = k" using ka inv_mem[OF g(2)] by auto
    have cc: "c < length (heap g)" "keyAt g c = keyAt g a @ CHR ''/'' # Name (heap g ! c)"
      using inv_child[OF g(2) a(1) c] by auto
    have "(keyAt g c, c) \<in> set (graph g)" using inv_mem[OF g(2)] cc(1) by simp
    then have "c \<in> snd ` set (graph g)" by force
    then show ?thesis using cc(2) inv_fullpath[OF g(2) cc(1)] inv_fullpath[OF g(2) a(1)] by simp
  qed
  have 5: "CHR ''/'' \<notin> set (Name (heap g ! a)) \<and>
          Name (heap g ! a) = last (Split (FullPath (heap g ! a)) CHR ''/'')"
    if ka: "(k, a) \<in> set (graph g)" for k a
  proof -
    have a: "a < length (heap g)" using ka inv_mem[OF g(2)] by auto
    have "Name (heap g ! a) = last (Split (keyAt g a) CHR ''/'')"
      using g(2) a unfolding graphInv_def by blast
    then show ?thesis using inv_name_no_sep[OF g(2) a] inv_fullpath[OF g(2) a] by simp
  qed
  show ?thesis
    by (rule exI[of _ g]) (use g(1) 1 2 3 4 5 in blast)
qed

theorem BuildFolderGraph_forest_invariant_witness:
  "\<exists>g. BuildFolderGraph (goFilepath Unix)
          [''/d/a/b/x.json'', ''/d/a/c/y.json'', ''/d/z.json''] ''/d'' = Some g \<and>
       (''a'', 0) \<in> set (graph g) \<and> 1 \<in> set (Children (heap g ! 0)) \<and>
       (''a/b'', 1) \<in> set (graph g) \<and>
       FullPath (heap g ! 1) = FullPath (heap g ! 0) @ ''/'' @ Name (heap g ! 1) \<and>
       CHR ''/'' \<notin> set (Name (heap g ! 1)) \<and>
       FullPath (heap g ! 1) = ''a/b''"
proof -
  let ?paths = "[''/d/a/b/x.json'', ''/d/a/c/y.json'', ''/d/z.json'']"
  obtain g where g: "BuildFolderGraph (goFilepath Unix) ?paths ''/d'' = Some g"
    and ch: "\<forall>(k, a)\<in>set (graph g). \<forall>c\<in>set (Children (heap g ! a)).
          c \<in> snd ` set (graph g) \<and>
          FullPath (heap g ! c) = FullPath (heap g ! a) @ ''/'' @ Name (heap g ! c)"
    and nm: "\<forall>(k, a)\<in>set (graph g).
          CHR ''/'' \<notin> set (Name (heap g ! a)) \<and>
          Name (heap g ! a) = last (Split (FullPath (heap g ! a)) CHR ''/'')"
    using BuildFolderGraph_forest_invariant[of "goFilepath Unix" ?paths "''/d''"]
    by (elim exE conjE)
  have v: "g = \<lparr>heap =
       [\<lparr>Name = ''a'', FullPath = ''a'', Children = [1, 2], UID = [], ID = 0\<rparr>,
        \<lparr>Name = ''b'', FullPath = ''a/b'', Children = [], UID = [], ID = 0\<rparr>,
        \<lparr>Name = ''c'', FullPath = ''a/c'', Children = [], UID = [], ID = 0\<rparr>],
       graph = [(''a'', 0), (''a/b'', 1), (''a/c'', 2)]\<rparr>"
    using g wit_graph by auto
  have m: "(''a'', 0) \<in> set (graph g)" "1 \<in> set (Children (heap g ! 0))"
    "(''a/b'', 1) \<in> set (graph g)"
    unfolding v by simp_all
  have "FullPath (heap g ! 1) = FullPath (heap g ! 0) @ ''/'' @ Name (heap g ! 1)"
    using ch m(1,2) by blast
  moreover have "CHR ''/'' \<notin> set (Name (heap g ! 1))" using nm m(3) by blast
  moreover have "FullPath (heap g ! 1) = ''a/b''" unfolding v by simp
  ultimately show ?thesis using g m by blast
qed

text \<open>
  Claim C7. For a node of the map returned by \<open>BuildFolderGraph\<close>, \<open>HasParent\<close>
  is false exactly when the node's full path contains no slash.
\<close>
theorem HasParent_root_detection:
  assumes g: "BuildFolderGraph fp dashboardPaths baseDir = Some g"
    and node: "(k, node) \<in> set (graph g)"
  shows "\<not> HasParent node g \<longleftrightarrow> CHR ''/'' \<notin> set (FullPath (heap g ! node))"
proof -
  have inv: "graphInv g" using BuildFolderGraph_inv[of fp dashboardPaths baseDir] g by auto
  have n: "node < length (heap g)" "keyAt g node = k" using node inv_mem[OF inv] by auto
  have fp: "FullPath (heap g ! node) = keyAt g node" using inv_fullpath[OF inv n(1)] .
  have "HasParent node g \<longleftrightarrow> CHR ''/'' \<in> set (keyAt g node)"
  proof
    assume "HasParent node g"
    then obtain p where p: "p < length (heap g)" "node \<in> set (Children (heap g ! p))"
      using HasParent_iff[OF inv] by blast
    have "keyAt g node = keyAt g p @ CHR ''/'' # Name (heap g ! node)"
      using inv_child(3)[OF inv p] .
    then show "CHR ''/'' \<in> set (keyAt g node)" by simp
  next
    assume "CHR ''/'' \<in> set (keyAt g node)"
    then show "HasParent node g" using inv_parent[OF inv n(1)] HasParent_iff[OF inv] by blast
  qed
  then show ?thesis using fp by simp
qed

theorem HasParent_root_detection_witness:
  "\<exists>g. BuildFolderGraph (goFilepath Unix)
          [''/d/a/b/x.json'', ''/d/a/c/y.json'', ''/d/z.json''] ''/d'' = Some g \<and>
       (''a'', 0) \<in> set (graph g) \<and> \<not> HasParent 0 g \<and>
       (''a/c'', 2) \<in> set (graph g) \<and> HasParent 2 g"
proof -
  let ?paths = "[''/d/a/b/x.json'', ''/d/a/c/y.json'', ''/d/z.json'']"
  let ?g = "\<lparr>heap =
       [\<lparr>Name = ''a'', FullPath = ''a'', Children = [1, 2], UID = [], ID = 0\<rparr>,
        \<lparr>Name = ''b'', FullPath = ''a/b'', Children = [], UID = [], ID = 0\<rparr>,
        \<lparr>Name = ''c'', FullPath = ''a/c'', Children = [], UID = [], ID = 0\<rparr>],
       graph = [(''a'', 0), (''a/b'', 1), (''a/c'', 2)]\<rparr>"
  have m0: "(''a'', 0) \<in> set (graph ?g)" and m2: "(''a/c'', 2) \<in> set (graph ?g)" by simp_all
  have "\<not> HasParent 0 ?g"
    using HasParent_root_detection[OF wit_graph m0] by simp
  moreover have "HasParent 2 ?g"
    using HasParent_root_detection[OF wit_graph m2] by simp
  ultimately show ?thesis using wit_graph m0 m2 by blast
qed

text \<open>
  Claim C2. Building from the path list followed by itself, or from any
  permutation of it, gives a forest with the same nodes (key and name) and the
  same parent/child edges as building from the list once, and in each of these
  forests no \<open>Children\<close> list holds a node twice.
\<close>
theorem BuildFolderGraph_idempotent:
  "\<exists>g g2. BuildFolderGraph fp paths baseDir = Some g \<and>
     BuildFolderGraph fp (paths @ paths) baseDir = Some g2 \<and>
     nodeSet g2 = nodeSet g \<and> edgeSet g2 = edgeSet g \<and>
     (\<forall>(k, a)\<in>set (graph g). distinct (Children (heap g ! a))) \<and>
     (\<forall>(k, a)\<in>set (graph g2). distinct (Children (heap g2 ! a))) \<and>
     (\<forall>paths'. mset paths' = mset paths \<longrightarrow>
        (\<exists>gp. BuildFolderGraph fp paths' baseDir = Some gp \<and>
              nodeSet gp = nodeSet g \<and> edgeSet gp = edgeSet g \<and>
              (\<forall>(k, a)\<in>set (graph gp). distinct (Children (heap gp ! a)))))"
proof -
  obtain g where g: "BuildFolderGraph fp paths baseDir = Some g" "graphInv g"
    using BuildFolderGraph_inv[of fp paths baseDir] by (elim exE conjE)
  have "set (paths @ paths) = set paths" by simp
  from build_same_set[OF this g(1)]
  obtain g2 where g2: "BuildFolderGraph fp (paths @ paths) baseDir = Some g2"
    "nodeSet g2 = nodeSet g" "edgeSet g2 = edgeSet g"
    "\<forall>(k, a)\<in>set (graph g2). distinct (Children (heap g2 ! a))" by blast
  have d: "\<forall>(k, a)\<in>set (graph g). distinct (Children (heap g ! a))"
    using noDup_inv[OF g(2)] by blast
  have p: "\<exists>gp. BuildFolderGraph fp paths' baseDir = Some gp \<and>
              nodeSet gp = nodeSet g \<and> edgeSet gp = edgeSet g \<and>
              (\<forall>(k, a)\<in>set (graph gp). distinct (Children (heap gp ! a)))"
    if "mset paths' = mset paths" for paths'
  proof -
    have "set paths' = set paths" using that by (metis set_mset_mset)
    then show ?thesis using build_same_set[OF _ g(1)] by blast
  qed
  show ?thesis using g(1) g2 d p by blast
qed

theorem BuildFolderGraph_idempotent_witness:
  "\<exists>g gp. BuildFolderGraph (goFilepath Unix) [''/d/a/b/x.json'', ''/d/a/c/y.json''] ''/d'' = Some g \<and>
     BuildFolderGraph (goFilepath Unix) [''/d/a/c/y.json'', ''/d/a/b/x.json''] ''/d'' = Some gp \<and>
     mset [''/d/a/c/y.json'', ''/d/a/b/x.json''] = mset [''/d/a/b/x.json'', ''/d/a/c/y.json''] \<and>
     graph gp \<noteq> graph g \<and> nodeSet gp = nodeSet g \<and> edgeSet gp = edgeSet g \<and>
     (''a'', 0) \<in> set (graph gp) \<and> distinct (Children (heap gp ! 0))"
proof -
  let ?paths = "[''/d/a/b/x.json'', ''/d/a/c/y.json'']"
  let ?paths' = "[''/d/a/c/y.json'', ''/d/a/b/x.json'']"
  have ms: "mset ?paths' = mset ?paths" by simp
  obtain g where g: "BuildFolderGraph (goFilepath Unix) ?paths ''/d'' = Some g"
    and p: "\<forall>paths'. mset paths' = mset ?paths \<longrightarrow>
        (\<exists>gp. BuildFolderGraph (goFilepath Unix) paths' ''/d'' = Some gp \<and>
              nodeSet gp = nodeSet g \<and> edgeSet gp = edgeSet g \<and>
              (\<forall>(k, a)\<in>set (graph gp). distinct (Children (heap gp ! a))))"
    using BuildFolderGraph_idempotent[of "goFilepath Unix" ?paths "''/d''"]
    by (elim exE conjE)
  obtain gp where gp: "BuildFolderGraph (goFilepath Unix) ?paths' ''/d'' = Some gp"
     "nodeSet gp = nodeSet g" "edgeSet gp = edgeSet g"
     "\<forall>(k, a)\<in>set (graph gp). distinct (Children (heap gp ! a))"
    using p ms by blast
  have vg: "graph g = [(''a'', 0), (''a/b'', 1), (''a/c'', 2)]"
  proof -
    have "BuildFolderGraph (goFilepath Unix) ?paths ''/d'' =
     Some \<lparr>heap =
       [\<lparr>Name = ''a'', FullPath = ''a'', Children = [1, 2], UID = [], ID = 0\<rparr>,
        \<lparr>Name = ''b'', FullPath = ''a/b'', Children = [], UID = [], ID = 0\<rparr>,
        \<lparr>Name = ''c'', FullPath = ''a/c'', Children = [], UID = [], ID = 0\<rparr>],
       graph = [(''a'', 0), (''a/b'', 1), (''a/c'', 2)]\<rparr>"
      by code_simp
    then show ?thesis using g by auto
  qed
  have vp: "graph gp = [(''a'', 0), (''a/c'', 1), (''a/b'', 2)]"
    using gp(1) wit_graph_perm by auto
  have ne: "graph gp \<noteq> graph g" unfolding vg vp by simp
  have m: "(''a'', 0) \<in> set (graph gp)" unfolding vp by simp
  then have "distinct (Children (heap gp ! 0))" using gp(4) by blast
  then show ?thesis using g gp(1,2,3) ms ne m by blast
qed

section \<open>Properties of the client\<close>

lemma decode_elim:
  assumes "DecodeRuneInString (b0 # s) = (c, n)"
  obtains (ascii) "inRange b0 0 0x7F" "c = [b0]" "n = 1"
  | (two) b1 t where "\<not> inRange b0 0 0x7F" "inRange b0 0xC2 0xDF" "s = b1 # t"
      "inRange b1 0x80 0xBF" "c = [b0, b1]" "n = 2"
  | (three) b1 b2 t where "\<not> inRange b0 0 0x7F" "\<not> inRange b0 0xC2 0xDF" "inRange b0 0xE0 0xEF"
      "s = b1 # b2 # t"
      "inRange b1 (if b0 = CHR 0xE0 then 0xA0 else 0x80) (if b0 = CHR 0xED then 0x9F else 0xBF)"
      "inRange b2 0x80 0xBF" "c = [b0, b1, b2]" "n = 3"
  | (four) b1 b2 b3 t where "\<not> inRange b0 0 0x7F" "\<not> inRange b0 0xC2 0xDF"
      "\<not> inRange b0 0xE0 0xEF" "inRange b0 0xF0 0xF4" "s = b1 # b2 # b3 # t"
      "inRange b1 (if b0 = CHR 0xF0 then 0x90 else 0x80) (if b0 = CHR 0xF4 then 0x8F else 0xBF)"
      "inRange b2 0x80 0xBF" "inRange b3 0x80 0xBF" "c = [b0, b1, b2, b3]" "n = 4"
  | (invalid) "\<not> inRange b0 0 0x7F" "c = RuneError" "n = 1"
proof (cases "inRange b0 0 0x7F")
  case True
  then show ?thesis using assms ascii by simp
next
  case n1: False
  show ?thesis
  proof (cases "inRange b0 0xC2 0xDF")
    case True
    then show ?thesis using assms n1 two invalid
      by (cases s) (simp_all split: if_splits)
  next
    case n2: False
    show ?thesis
    proof (cases "inRange b0 0xE0 0xEF")
      case True
      show ?thesis
      proof (cases s)
        case Nil
        then show ?thesis using assms n1 n2 True invalid by simp
      next
        case (Cons b1 s1)
        show ?thesis
        proof (cases s1)
          case Nil
          then show ?thesis using assms n1 n2 True invalid Cons by simp
        next
          case c2: (Cons b2 s2)
          show ?thesis
          proof (cases "inRange b1 (if b0 = CHR 0xE0 then 0xA0 else 0x80)
                          (if b0 = CHR 0xED then 0x9F else 0xBF) \<and> inRange b2 0x80 0xBF")
            case t: True
            have "c = [b0, b1, b2]" "n = 3"
              using assms n1 n2 True Cons c2 t by simp_all
            then show ?thesis using three[of b1 b2 s2] n1 n2 True Cons c2 t by blast
          next
            case f: False
            have "c = RuneError" "n = 1"
              using assms n1 n2 True Cons c2 f by auto
            then show ?thesis using invalid n1 by blast
          qed
        qed
      qed
    next
      case n3: False
      show ?thesis
      proof (cases "inRange b0 0xF0 0xF4")
        case True
        show ?thesis
        proof (cases s)
          case Nil
          then show ?thesis using assms n1 n2 n3 True invalid by simp
        next
          case (Cons b1 s1)
          show ?thesis
          proof (cases s1)
            case Nil
            then show ?thesis using assms n1 n2 n3 True invalid Cons by simp
          next
            case c2: (Cons b2 s2)
            show ?thesis
            proof (cases s2)
              case Nil
              then show ?thesis using assms n1 n2 n3 True invalid Cons c2 by simp
            next
              case c3: (Cons b3 s3)
              show ?thesis
              proof (cases "inRange b1 (if b0 = CHR 0xF0 then 0x90 else 0x80)
                          (if b0 = CHR 0xF4 then 0x8F else 0xBF) \<and> inRange b2 0x80 0xBF
                          \<and> inRange b3 0x80 0xBF")
                case t: True
                have "c = [b0, b1, b2, b3]" "n = 4"
                  using assms n1 n2 n3 True Cons c2 c3 t by simp_all
                then show ?thesis using four[of b1 b2 b3 s3] n1 n2 n3 True Cons c2 c3 t by blast
              next
                case f: False
                have "c = RuneError" "n = 1"
                  using assms n1 n2 n3 True Cons c2 c3 f by auto
                then show ?thesis using invalid n1 by blast
              qed
            qed
          qed
        qed
      next
        case False
        then show ?thesis using assms n1 n2 n3 invalid by simp
      qed
    qed
  qed
qed

lemma inRange_not_ascii: "inRange b lo hi \<Longrightarrow> 0x80 \<le> lo \<Longrightarrow> \<not> inRange b 0 0x7F"
  by (simp add: inRange_def)

lemma inRange_not_ascii_if:
  "inRange b (if p then 0xA0 else 0x80) hi \<Longrightarrow> \<not> inRange b 0 0x7F"
  "inRange b (if p then 0x90 else 0x80) hi \<Longrightarrow> \<not> inRange b 0 0x7F"
  by (simp_all add: inRange_def split: if_splits)

lemma RuneError_not_ascii: "\<forall>b\<in>set RuneError. \<not> inRange b 0 0x7F"
  by (simp add: RuneError_def inRange_def)

lemma wellEncoded_RuneError: "wellEncoded RuneError"
  by (simp add: wellEncoded_def RuneError_def inRange_def)

lemma decode_bytes:
  assumes "DecodeRuneInString (b0 # s) = (c, n)"
  shows "(inRange b0 0 0x7F \<and> c = [b0] \<and> n = 1) \<or>
         (\<not> inRange b0 0 0x7F \<and> (\<forall>b\<in>set c. \<not> inRange b 0 0x7F))"
  using assms
proof (cases rule: decode_elim)
  case ascii
  then show ?thesis by simp
next
  case (two b1 t)
  then show ?thesis using inRange_not_ascii[of b1 "0x80" "0xBF"] by simp
next
  case (three b1 b2 t)
  then show ?thesis
    using inRange_not_ascii_if(1)[of b1] inRange_not_ascii[of b2 "0x80" "0xBF"] by simp
next
  case (four b1 b2 b3 t)
  then show ?thesis
    using inRange_not_ascii_if(2)[of b1] inRange_not_ascii[of b2 "0x80" "0xBF"]
      inRange_not_ascii[of b3 "0x80" "0xBF"] by simp
next
  case invalid
  then show ?thesis using RuneError_not_ascii by simp
qed

lemma decode_wellEncoded:
  assumes "DecodeRuneInString (b0 # s) = (c, n)"
  shows "wellEncoded c \<and> 1 \<le> n"
  using assms
proof (cases rule: decode_elim)
  case ascii
  then show ?thesis by (simp add: wellEncoded_def)
next
  case (two b1 t)
  then show ?thesis by (simp add: wellEncoded_def)
next
  case (three b1 b2 t)
  then show ?thesis by (simp add: wellEncoded_def)
next
  case (four b1 b2 b3 t)
  then show ?thesis by (simp add: wellEncoded_def)
next
  case invalid
  then show ?thesis by (simp add: wellEncoded_RuneError)
qed

lemma wellEncoded_append:
  assumes "wellEncoded c"
  shows "DecodeRuneInString (c @ t) = (c, length c)"
proof -
  obtain b0 s where c: "c = b0 # s" using assms by (cases c) (auto simp: wellEncoded_def)
  have d: "DecodeRuneInString (b0 # s) = (b0 # s, Suc (length s))"
    using assms unfolding wellEncoded_def c by simp
  from d have "DecodeRuneInString (b0 # s @ t) = (b0 # s, Suc (length s))"
  proof (cases rule: decode_elim)
    case ascii
    then show ?thesis by simp
  next
    case (two b1 t)
    then show ?thesis by simp
  next
    case (three b1 b2 t)
    then show ?thesis by simp
  next
    case (four b1 b2 b3 t)
    then show ?thesis by simp
  next
    case invalid
    then show ?thesis by (simp add: RuneError_def)
  qed
  then show ?thesis by (simp add: c)
qed

lemma wellEncoded_bytes:
  assumes "wellEncoded c"
  shows "(\<exists>b. c = [b] \<and> inRange b 0 0x7F) \<or> (\<forall>b\<in>set c. \<not> inRange b 0 0x7F)"
proof -
  obtain b0 s where c: "c = b0 # s" using assms by (cases c) (auto simp: wellEncoded_def)
  have d: "DecodeRuneInString (b0 # s) = (c, length c)"
    using assms unfolding wellEncoded_def c by simp
  from decode_bytes[OF d] show ?thesis by blast
qed

lemma wellEncoded_single: "inRange b 0 0x7F \<Longrightarrow> wellEncoded [b]"
  by (simp add: wellEncoded_def)

lemma rangeString_aux_skip: "rangeString_aux (length xs) (xs @ t) = rangeString_aux 0 t"
  by (induction xs) simp_all

lemma rangeString_aux_chunk:
  assumes "wellEncoded c"
  shows "rangeString_aux 0 (c @ t) = c # rangeString_aux 0 t"
proof -
  obtain b0 s where c: "c = b0 # s" using assms by (cases c) (auto simp: wellEncoded_def)
  have "DecodeRuneInString (b0 # s @ t) = (c, length c)"
    using wellEncoded_append[OF assms, of t] by (simp add: c)
  then have "rangeString_aux 0 (c @ t) = c # rangeString_aux (length s) (s @ t)"
    by (simp add: c del: DecodeRuneInString.simps)
  then show ?thesis by (simp add: rangeString_aux_skip)
qed

lemma rangeString_aux_concat:
  assumes "\<forall>c\<in>set cs. wellEncoded c"
  shows "rangeString_aux 0 (concat cs) = cs"
  using assms by (induction cs) (simp_all add: rangeString_aux_chunk)

lemma rangeString_aux_wellEncoded:
  "\<forall>c\<in>set (rangeString_aux k s). wellEncoded c"
proof (induction s arbitrary: k)
  case Nil
  then show ?case by simp
next
  case (Cons b s)
  show ?case
  proof (cases k)
    case 0
    obtain c n where d: "DecodeRuneInString (b # s) = (c, n)" by (cases "DecodeRuneInString (b # s)")
    then show ?thesis using 0 decode_wellEncoded[OF d] Cons.IH[of "n - 1"]
      by (simp del: DecodeRuneInString.simps)
  next
    case (Suc k')
    then show ?thesis using Cons.IH[of k'] by simp
  qed
qed

lemma rangeString_ascii:
  assumes "\<forall>b\<in>set s. inRange b 0 0x7F"
  shows "rangeString s = map (\<lambda>b. [b]) s"
  using assms unfolding rangeString_def by (induction s) simp_all

lemma rangeString_single:
  assumes "\<forall>c\<in>set (rangeString_aux 0 s). \<exists>b. c = [b] \<and> inRange b 0 0x7F"
  shows "\<forall>b\<in>set s. inRange b 0 0x7F"
  using assms
proof (induction s)
  case Nil
  then show ?case by simp
next
  case (Cons b0 s)
  obtain c n where d: "DecodeRuneInString (b0 # s) = (c, n)" by (cases "DecodeRuneInString (b0 # s)")
  have r: "rangeString_aux 0 (b0 # s) = c # rangeString_aux (n - 1) s"
    using d by (simp del: DecodeRuneInString.simps)
  obtain b where b: "c = [b]" "inRange b 0 0x7F"
    using Cons.prems unfolding r by auto
  from decode_bytes[OF d] b have a: "inRange b0 0 0x7F" "n = 1" by auto
  then have "\<forall>c\<in>set (rangeString_aux 0 s). \<exists>b. c = [b] \<and> inRange b 0 0x7F"
    using Cons.prems unfolding r by simp
  then show ?case using Cons.IH a by simp
qed

lemma sep_wellEncoded: "wellEncoded ''/''" "wellEncoded ''.''" "wellEncoded [CHR 0x5C]"
  by (simp_all add: wellEncoded_def inRange_def)

lemma replaceSeparators_loop_concat:
  "replaceSeparators_loop cs ''/'' =
     concat (map (\<lambda>c. if c = [CHR 0x5C] then ''/'' else c) cs)"
  by (induction cs) auto

lemma rangeString_replaceSeparators:
  "rangeString (replaceSeparators s ''/'') =
     map (\<lambda>c. if c = [CHR 0x5C] then ''/'' else c) (rangeString s)"
proof -
  have "\<forall>c\<in>set (map (\<lambda>c. if c = [CHR 0x5C] then ''/'' else c) (rangeString s)). wellEncoded c"
    using rangeString_aux_wellEncoded[of 0 s] sep_wellEncoded(1)
    by (auto simp: rangeString_def)
  from rangeString_aux_concat[OF this] show ?thesis
    by (simp add: replaceSeparators_def replaceSeparators_loop_concat rangeString_def)
qed

lemma adjacent_Cons:
  "adjacent d (x # s) \<longleftrightarrow> (x = d \<and> s \<noteq> [] \<and> hd s = d) \<or> adjacent d s"
  by (cases s) auto

lemma adjacent_map:
  assumes "\<And>x. f x = e \<longleftrightarrow> x = d"
  shows "adjacent e (map f s) = adjacent d s"
proof (induction s)
  case Nil
  then show ?case by simp
next
  case (Cons x s)
  then show ?case using assms by (cases s) (auto simp: adjacent_Cons)
qed

lemma splitBy_loop_dots:
  assumes "\<forall>c\<in>set cs. c \<noteq> []"
  shows "(\<forall>x\<in>set (splitBy_loop cs ''/'' parts cur). x = ''.'') \<longleftrightarrow>
     (\<forall>x\<in>set parts. x = ''.'') \<and> (cur = [] \<or> cur = ''.'') \<and>
     set cs \<subseteq> {''/'', ''.''} \<and> \<not> adjacent ''.'' cs \<and>
     (cur = ''.'' \<longrightarrow> cs = [] \<or> hd cs = ''/'')"
  using assms
proof (induction cs arbitrary: parts cur)
  case Nil
  then show ?case by auto
next
  case (Cons c s)
  have ne: "\<forall>c\<in>set s. c \<noteq> []" "c \<noteq> []" using Cons.prems by simp_all
  show ?case
  proof (cases "c = ''/''")
    case True
    then show ?thesis using Cons.IH[OF ne(1), of "parts @ [cur]" "[]"] Cons.IH[OF ne(1), of parts "[]"]
      by (auto simp: adjacent_Cons)
  next
    case False
    have e: "cur @ c = ''.'' \<longleftrightarrow> cur = [] \<and> c = ''.''"
      using ne(2) by (cases cur; cases c) auto
    have e2: "cur @ c \<noteq> []" using ne(2) by simp
    show ?thesis using False Cons.IH[OF ne(1), of parts "cur @ c"] e e2
      by (cases s) (auto simp: adjacent_Cons)
  qed
qed

lemma splitBy_loop_segments:
  assumes "x \<in> set (splitBy_loop cs ''/'' parts cur)"
  shows "x \<in> set parts \<or> (x \<noteq> [] \<and> set x \<subseteq> set cur \<union> (\<Union>c\<in>set cs - {''/''}. set c))"
  using assms
proof (induction cs arbitrary: parts cur)
  case Nil
  then show ?case by (auto split: if_splits)
next
  case (Cons c s)
  show ?case
  proof (cases "c = ''/''")
    case True
    show ?thesis
    proof (cases "cur = []")
      case True
      then show ?thesis using Cons.prems \<open>c = ''/''\<close> Cons.IH[of parts "[]"] by auto
    next
      case False
      then show ?thesis using Cons.prems \<open>c = ''/''\<close> Cons.IH[of "parts @ [cur]" "[]"] by auto
    qed
  next
    case False
    then have "x \<in> set (splitBy_loop s ''/'' parts (cur @ c))" using Cons.prems by simp
    then show ?thesis using Cons.IH[of parts "cur @ c"] False by auto
  qed
qed

lemma splitFolderPath_segments:
  assumes "seg \<in> set (splitFolderPath path)"
  shows "seg \<noteq> [] \<and> seg \<noteq> ''.'' \<and> CHR ''/'' \<notin> set seg \<and> CHR 0x5C \<notin> set seg"
proof -
  let ?f = "\<lambda>c. if c = [CHR 0x5C] then ''/'' else c"
  have f: "seg \<noteq> []" "seg \<noteq> ''.''" and m: "seg \<in> set (splitPath path)"
    using assms by (auto simp: splitFolderPath_def split: if_splits)
  have "seg \<in> set (splitBy_loop (map ?f (rangeString path)) ''/'' [] [])"
    using m by (simp add: splitPath_def splitBy_def rangeString_replaceSeparators)
  from splitBy_loop_segments[OF this]
  have s: "set seg \<subseteq> (\<Union>c\<in>set (map ?f (rangeString path)) - {''/''}. set c)"
    by (simp del: set_map)
  have "b \<noteq> CHR ''/'' \<and> b \<noteq> CHR 0x5C" if "b \<in> set seg" for b
  proof -
    have "\<exists>c'\<in>set (map ?f (rangeString path)) - {''/''}. b \<in> set c'"
      using s that by blast
    then obtain c' where c1: "c' \<in> set (map ?f (rangeString path))" "c' \<noteq> ''/''" "b \<in> set c'"
      by blast
    then obtain c where c: "c \<in> set (rangeString path)" "?f c \<noteq> ''/''" "b \<in> set (?f c)"
      by auto
    then have c': "c \<noteq> ''/''" "c \<noteq> [CHR 0x5C]" "b \<in> set c" by (auto split: if_splits)
    have "wellEncoded c" using c(1) rangeString_aux_wellEncoded[of 0 path]
      by (simp add: rangeString_def)
    from wellEncoded_bytes[OF this] show ?thesis
    proof
      assume "\<exists>b. c = [b] \<and> inRange b 0 0x7F"
      then show ?thesis using c' by auto
    next
      assume "\<forall>b\<in>set c. \<not> inRange b 0 0x7F"
      then have "\<not> inRange b 0 0x7F" using c'(3) by blast
      then show ?thesis by (auto simp: inRange_def)
    qed
  qed
  then show ?thesis using f by blast
qed

lemma set_singletons:
  "set (map (\<lambda>b. [b]) s) \<subseteq> {[x], [y], [z]} \<longleftrightarrow> set s \<subseteq> {x, y, z}"
  by (induction s) simp_all

lemma degenerate_rangeString:
  "degenerate path \<longleftrightarrow>
     set (rangeString path) \<subseteq> {''/'', [CHR 0x5C], ''.''} \<and> \<not> adjacent ''.'' (rangeString path)"
proof -
  have asc: "inRange b 0 0x7F" if "b \<in> {CHR ''/'', CHR 0x5C, CHR ''.''}" for b
    using that by (auto simp: inRange_def)
  have m: "adjacent ''.'' (map (\<lambda>b. [b]) path) = adjacent CHR ''.'' path"
    by (rule adjacent_map) simp
  have e: "degenerate path \<longleftrightarrow>
     set (map (\<lambda>b. [b]) path) \<subseteq> {''/'', [CHR 0x5C], ''.''} \<and>
     \<not> adjacent ''.'' (map (\<lambda>b. [b]) path)"
    unfolding m set_singletons degenerate_def ..
  show ?thesis
  proof
    assume d: "degenerate path"
    then have "\<forall>b\<in>set path. inRange b 0 0x7F" using asc unfolding degenerate_def by blast
    from rangeString_ascii[OF this] have r: "rangeString path = map (\<lambda>b. [b]) path" .
    show "set (rangeString path) \<subseteq> {''/'', [CHR 0x5C], ''.''} \<and> \<not> adjacent ''.'' (rangeString path)"
      unfolding r using d e by blast
  next
    assume a: "set (rangeString path) \<subseteq> {''/'', [CHR 0x5C], ''.''} \<and> \<not> adjacent ''.'' (rangeString path)"
    have "\<forall>c\<in>set (rangeString_aux 0 path). \<exists>b. c = [b] \<and> inRange b 0 0x7F"
    proof
      fix c assume "c \<in> set (rangeString_aux 0 path)"
      then have "c \<in> {''/'', [CHR 0x5C], ''.''}" using a unfolding rangeString_def by blast
      then have "c = ''/'' \<or> c = [CHR 0x5C] \<or> c = ''.''" by blast
      then show "\<exists>b. c = [b] \<and> inRange b 0 0x7F" using asc by blast
    qed
    from rangeString_single[OF this] have "\<forall>b\<in>set path. inRange b 0 0x7F" .
    from rangeString_ascii[OF this] have r: "rangeString path = map (\<lambda>b. [b]) path" .
    show "degenerate path" using a unfolding r e by blast
  qed
qed

lemma splitFolderPath_empty_iff: "splitFolderPath path = [] \<longleftrightarrow> degenerate path"
proof (cases "path = [] \<or> path = ''.''")
  case True
  then show ?thesis by (auto simp: splitFolderPath_def degenerate_def)
next
  case False
  let ?f = "\<lambda>c. if c = [CHR 0x5C] then ''/'' else c"
  let ?r = "map ?f (rangeString path)"
  have ne0: "\<forall>c\<in>set (rangeString path). c \<noteq> []"
    using rangeString_aux_wellEncoded[of 0 path] by (auto simp: rangeString_def wellEncoded_def)
  then have ne1: "\<forall>c\<in>set ?r. c \<noteq> []" by auto
  have ne: "x \<noteq> []" if "x \<in> set (splitBy_loop ?r ''/'' [] [])" for x
    using splitBy_loop_segments[OF that] by auto
  have ad: "adjacent ''.'' ?r = adjacent ''.'' (rangeString path)"
    by (rule adjacent_map) auto
  have "splitFolderPath path = [] \<longleftrightarrow>
        (\<forall>x\<in>set (splitBy_loop ?r ''/'' [] []). x = [] \<or> x = ''.'')"
    using False
    by (auto simp: splitFolderPath_def splitPath_def splitBy_def filter_empty_conv
        rangeString_replaceSeparators)
  also have "\<dots> \<longleftrightarrow> (\<forall>x\<in>set (splitBy_loop ?r ''/'' [] []). x = ''.'')"
    using ne by blast
  also have "\<dots> \<longleftrightarrow> set ?r \<subseteq> {''/'', ''.''} \<and> \<not> adjacent ''.'' ?r"
    unfolding splitBy_loop_dots[OF ne1] by simp
  also have "\<dots> \<longleftrightarrow> set (rangeString path) \<subseteq> {''/'', [CHR 0x5C], ''.''} \<and>
        \<not> adjacent ''.'' (rangeString path)"
    unfolding ad by (auto split: if_splits)
  also have "\<dots> \<longleftrightarrow> degenerate path" by (simp add: degenerate_rangeString)
  finally show ?thesis .
qed

lemma ascii_not_continuation:
  assumes "inRange x 0 0x7F"
  shows "\<not> inRange x 0x80 hi" "\<not> inRange x (if p then 0xA0 else 0x80) hi"
    "\<not> inRange x (if p then 0x90 else 0x80) hi"
  using assms by (simp_all add: inRange_def)

lemma decode_ascii_swap:
  assumes x: "inRange x 0 0x7F" and y: "inRange y 0 0x7F"
  shows "DecodeRuneInString (a0 # a @ x # b) = DecodeRuneInString (a0 # a @ y # b)"
proof (cases a)
  case Nil
  then show ?thesis
    by (cases b; cases "tl b")
      (simp_all add: ascii_not_continuation[OF x] ascii_not_continuation[OF y])
next
  case c1: (Cons a1 s1)
  show ?thesis
  proof (cases s1)
    case Nil
    then show ?thesis using c1
      by (cases b) (simp_all add: ascii_not_continuation[OF x] ascii_not_continuation[OF y])
  next
    case c2: (Cons a2 s2)
    show ?thesis
    proof (cases s2)
      case Nil
      then show ?thesis using c1 c2
        by (simp add: ascii_not_continuation[OF x] ascii_not_continuation[OF y])
    next
      case (Cons a3 s3)
      then show ?thesis using c1 c2 by simp
    qed
  qed
qed

lemma rangeString_aux_swap:
  "map (\<lambda>c. if c = [CHR 0x5C] then ''/'' else c) (rangeString_aux k (a @ CHR 0x5C # b)) =
   map (\<lambda>c. if c = [CHR 0x5C] then ''/'' else c) (rangeString_aux k (a @ CHR ''/'' # b))"
proof (induction a arbitrary: k)
  case Nil
  show ?case by (cases k) (simp_all add: inRange_def)
next
  case (Cons a0 a)
  show ?case
  proof (cases k)
    case 0
    have e: "DecodeRuneInString (a0 # a @ CHR 0x5C # b) = DecodeRuneInString (a0 # a @ CHR ''/'' # b)"
      by (rule decode_ascii_swap) (simp_all add: inRange_def)
    obtain c n where d: "DecodeRuneInString (a0 # a @ CHR ''/'' # b) = (c, n)"
      by (cases "DecodeRuneInString (a0 # a @ CHR ''/'' # b)")
    show ?thesis using 0 Cons.IH[of "n - 1"] d e
      by (simp del: DecodeRuneInString.simps)
  next
    case (Suc k')
    then show ?thesis using Cons.IH[of k'] by simp
  qed
qed

lemma splitFolderPath_backslash:
  "splitFolderPath (a @ CHR 0x5C # b) = splitFolderPath (a @ CHR ''/'' # b)"
proof -
  have "rangeString (replaceSeparators (a @ CHR 0x5C # b) ''/'') =
        rangeString (replaceSeparators (a @ CHR ''/'' # b) ''/'')"
    unfolding rangeString_replaceSeparators by (simp only: rangeString_def rangeString_aux_swap)
  then have "splitPath (a @ CHR 0x5C # b) = splitPath (a @ CHR ''/'' # b)"
    by (simp add: splitPath_def splitBy_def)
  moreover have "a @ CHR 0x5C # b \<noteq> ''.''" "a @ CHR ''/'' # b \<noteq> ''.''"
    by (cases a; simp)+
  ultimately show ?thesis by (simp add: splitFolderPath_def)
qed

lemma wit_split:
  "splitFolderPath (''a'' @ CHR 0x5C # ''.//b'') = [''a'', ''b'']"
  "degenerate (''/./'' @ CHR 0x5C # ''.'')"
  by code_simp+


text \<open>
  Claim C10. \<open>splitFolderPath\<close> returns no segment exactly for the degenerate
  paths. A segment it returns is never empty, never a single dot, and holds
  neither a slash nor a backslash; a backslash in the path splits it as a slash
  in its place does. On a degenerate path without a cache entry
  \<open>CreateFolderTree\<close> returns the error of the empty folder path and leaves the
  state as it was: no request is added to the trace, and the cache, the server
  and the store are unchanged.
\<close>
theorem CreateFolderTree_degenerate_path:
  "(splitFolderPath path = [] \<longleftrightarrow> degenerate path)
   \<and> (\<forall>seg\<in>set (splitFolderPath p).
         seg \<noteq> [] \<and> seg \<noteq> ''.'' \<and> CHR ''/'' \<notin> set seg \<and> CHR 0x5C \<notin> set seg)
   \<and> splitFolderPath (a @ CHR 0x5C # b) = splitFolderPath (a @ CHR ''/'' # b)
   \<and> (degenerate path \<and> folders st path = None \<longrightarrow>
         CreateFolderTree api path st = (Inl EmptyFolderPath, st))"
proof -
  have "CreateFolderTree api path st = (Inl EmptyFolderPath, st)"
    if "degenerate path" "folders st path = None"
    using that splitFolderPath_empty_iff[of path]
    by (simp add: CreateFolderTree_def createFolderRecursive_def)
  then show ?thesis
    using splitFolderPath_empty_iff splitFolderPath_segments splitFolderPath_backslash by blast
qed

theorem CreateFolderTree_degenerate_path_witness:
  "degenerate (''/./'' @ CHR 0x5C # ''.'') \<and>
   splitFolderPath (''/./'' @ CHR 0x5C # ''.'') = [] \<and>
   splitFolderPath (''a'' @ CHR 0x5C # ''.//b'') = [''a'', ''b''] \<and>
   splitFolderPath (''a'' @ CHR ''/'' # ''.//b'') = [''a'', ''b''] \<and>
   CreateFolderTree (refServer (\<lambda>n. ''u'')) (''/./'' @ CHR 0x5C # ''.'')
     \<lparr>heap = [], folders = Map.empty, remote = \<lparr>table = [], nextID = 1\<rparr>, trace = []\<rparr>
   = (Inl EmptyFolderPath,
      \<lparr>heap = [], folders = Map.empty, remote = \<lparr>table = [], nextID = 1\<rparr>, trace = []\<rparr>)"
  using CreateFolderTree_degenerate_path[of "''/./'' @ CHR 0x5C # ''.''" "''a'' @ CHR 0x5C # ''.//b''"
      "''a''" "''.//b''"
      "\<lparr>heap = [], folders = Map.empty, remote = \<lparr>table = [], nextID = 1\<rparr>, trace = []\<rparr>"
      "refServer (\<lambda>n. ''u'')"]
    wit_split
  by simp

lemma getFolderByTitle_cases:
  obtains resp w where "list_folders api p (remote st) = (resp, w)"
    "snd (getFolderByTitle api t p st) = st\<lparr>remote := w, trace := trace st @ [Listed t p resp]\<rparr>"
    "fst (getFolderByTitle api t p st) =
       (case resp of NoResponse \<Rightarrow> Inl TransportError
        | Response code body decoded \<Rightarrow>
            if code \<noteq> 200 then Inl (ListFailed body)
            else (case decoded of None \<Rightarrow> Inl DecodeError
                  | Some fs \<Rightarrow> Inr (findFolder t p fs)))"
proof -
  obtain resp w where r: "list_folders api p (remote st) = (resp, w)"
    by (cases "list_folders api p (remote st)")
  show ?thesis
    by (rule that[OF r]) (auto simp: getFolderByTitle_def r Let_def split: response.splits option.splits)
qed

lemma getFolderByTitle_heap [simp]: "heap (snd (getFolderByTitle api t p st)) = heap st"
  by (rule getFolderByTitle_cases[of api p st t]) simp

lemma getFolderByTitle_folders [simp]: "folders (snd (getFolderByTitle api t p st)) = folders st"
  by (rule getFolderByTitle_cases[of api p st t]) simp

lemma getFolderByTitle_heap': "getFolderByTitle api t p st = (r, st') \<Longrightarrow> heap st' = heap st"
  using getFolderByTitle_heap[of api t p st] by simp

lemma getFolderByTitle_folders': "getFolderByTitle api t p st = (r, st') \<Longrightarrow> folders st' = folders st"
  using getFolderByTitle_folders[of api t p st] by simp

lemma postFolder_snd:
  "snd (postFolder api t p st) =
     st\<lparr>remote := snd (create_folder api t p (remote st)),
        trace := trace st @ [Posted t p (fst (create_folder api t p (remote st)))]\<rparr>"
  by (simp add: postFolder_def split: prod.splits)


lemma postFolder_heap': "postFolder api t p st = (r, st') \<Longrightarrow> heap st' = heap st"
  using postFolder_snd[of api t p st] by simp

lemma postFolder_folders': "postFolder api t p st = (r, st') \<Longrightarrow> folders st' = folders st"
  using postFolder_snd[of api t p st] by simp

lemma CreateFolderTreeFromNode_block:
  "CreateFolderTreeFromNode (Suc depth) api node parentUid st =
     (case findOrCreate api (Name (heap st ! node)) parentUid st of
        (Inl err, st') \<Rightarrow> Some (Some err, st')
      | (Inr (i, u), st') \<Rightarrow>
          forChildren (\<lambda>child. CreateFolderTreeFromNode depth api child u)
            (Children (heap (adopt node i u st') ! node)) (adopt node i u st'))"
proof -
  let ?n = "Name (heap st ! node)"
  obtain r1 st1 where q1: "getFolderByTitle api ?n parentUid st = (r1, st1)"
    by (cases "getFolderByTitle api ?n parentUid st")
  have h1: "heap st1 = heap st" using getFolderByTitle_heap'[OF q1] .
  show ?thesis
  proof (cases r1)
    case (Inl e)
    then show ?thesis using q1 by (simp add: findOrCreate_def)
  next
    case (Inr iu)
    obtain i0 u0 where iu: "iu = (i0, u0)" by (cases iu)
    show ?thesis
    proof (cases "i0 > 0")
      case True
      then show ?thesis using q1 Inr iu by (simp add: findOrCreate_def Let_def)
    next
      case False
      obtain resp st2 where po: "postFolder api ?n parentUid st1 = (resp, st2)"
        by (cases "postFolder api ?n parentUid st1")
      have h2: "heap st2 = heap st" using postFolder_heap'[OF po] h1 by simp
      show ?thesis
      proof (cases resp)
        case NoResponse
        then show ?thesis using q1 Inr iu False po h1 by (simp add: findOrCreate_def)
      next
        case (Response code body decoded)
        show ?thesis
        proof (cases "code \<ge> 300")
          case ge: True
          show ?thesis
          proof (cases "code = 409 \<or> code = 412")
            case c: True
            obtain r3 st3 where q3: "getFolderByTitle api ?n parentUid st2 = (r3, st3)"
              by (cases "getFolderByTitle api ?n parentUid st2")
            show ?thesis
              using q1 Inr iu False po h1 h2 Response ge c q3
              by (cases r3) (auto simp add: findOrCreate_def Let_def split: prod.splits)
          next
            case c: False
            then show ?thesis using q1 Inr iu False po h1 h2 Response ge
              by (simp add: findOrCreate_def)
          qed
        next
          case ge: False
          then show ?thesis using q1 Inr iu False po h1 h2 Response
            by (cases decoded) (auto simp add: findOrCreate_def Let_def)
        qed
      qed
    qed
  qed
qed


lemma findOrCreate_cases:
  assumes "findOrCreate api n p st = (r, st')"
  obtains
    (QueryFailed) e where
      "getFolderByTitle api n p st = (Inl e, st')" "r = Inl (CheckExistingFailed e)"
  | (Found) i u where
      "getFolderByTitle api n p st = (Inr (i, u), st')" "i > 0" "r = Inr (i, u)"
  | (NoAnswer) i u st1 where
      "getFolderByTitle api n p st = (Inr (i, u), st1)" "\<not> i > 0"
      "postFolder api n p st1 = (NoResponse, st')" "r = Inl TransportError"
  | (Refused) i u st1 code body decoded where
      "getFolderByTitle api n p st = (Inr (i, u), st1)" "\<not> i > 0"
      "postFolder api n p st1 = (Response code body decoded, st')"
      "code \<ge> 300" "code \<noteq> 409" "code \<noteq> 412" "r = Inl (CreateFailed n body)"
  | (Undecodable) i u st1 code body where
      "getFolderByTitle api n p st = (Inr (i, u), st1)" "\<not> i > 0"
      "postFolder api n p st1 = (Response code body None, st')"
      "\<not> code \<ge> 300" "r = Inl DecodeError"
  | (Created) i u st1 code body ci cu where
      "getFolderByTitle api n p st = (Inr (i, u), st1)" "\<not> i > 0"
      "postFolder api n p st1 = (Response code body (Some (ci, cu)), st')"
      "\<not> code \<ge> 300" "r = Inr (ci, cu)"
  | (ConflictLost) i u st1 code body decoded st2 q where
      "getFolderByTitle api n p st = (Inr (i, u), st1)" "\<not> i > 0"
      "postFolder api n p st1 = (Response code body decoded, st2)"
      "code = 409 \<or> code = 412"
      "getFolderByTitle api n p st2 = (q, st')"
      "(\<exists>e. q = Inl e) \<or> (\<exists>eu. q = Inr (0, eu))"
      "r = Inl (ExistsButCannotRetrieve body)"
  | (ConflictFound) i u st1 code body decoded st2 ei eu where
      "getFolderByTitle api n p st = (Inr (i, u), st1)" "\<not> i > 0"
      "postFolder api n p st1 = (Response code body decoded, st2)"
      "code = 409 \<or> code = 412"
      "getFolderByTitle api n p st2 = (Inr (ei, eu), st')" "ei \<noteq> 0" "r = Inr (ei, eu)"
proof -
  obtain r1 st1 where q1: "getFolderByTitle api n p st = (r1, st1)"
    by (cases "getFolderByTitle api n p st")
  show ?thesis
  proof (cases r1)
    case (Inl e)
    then have "r = Inl (CheckExistingFailed e)" "st' = st1"
      using q1 assms by (auto simp: findOrCreate_def)
    then show ?thesis using QueryFailed[of e] q1 Inl by auto
  next
    case (Inr iu)
    note r1 = this
    obtain i u where iu: "iu = (i, u)" by (cases iu)
    show ?thesis
    proof (cases "i > 0")
      case True
      then have "r = Inr (i, u)" "st' = st1"
        using q1 r1 iu assms by (auto simp: findOrCreate_def)
      then show ?thesis using Found[of i u] q1 r1 iu True by auto
    next
      case False
      obtain resp st2 where po: "postFolder api n p st1 = (resp, st2)"
        by (cases "postFolder api n p st1")
      show ?thesis
      proof (cases resp)
        case NoResponse
        then have "r = Inl TransportError" "st' = st2"
          using q1 r1 iu False po assms by (auto simp: findOrCreate_def)
        then show ?thesis using NoAnswer[of i u st1] q1 r1 iu False po NoResponse by auto
      next
        case (Response code body decoded)
        show ?thesis
        proof (cases "code \<ge> 300")
          case ge: True
          show ?thesis
          proof (cases "code = 409 \<or> code = 412")
            case c: True
            obtain q st3 where q3: "getFolderByTitle api n p st2 = (q, st3)"
              by (cases "getFolderByTitle api n p st2")
            show ?thesis
            proof (cases q)
              case (Inl e3)
              then have "r = Inl (ExistsButCannotRetrieve body)" "st' = st3"
                using q1 r1 iu False po Response ge c q3 assms
                by (auto simp: findOrCreate_def)
              then show ?thesis
                using ConflictLost[of i u st1 code body decoded st2 q] q1 r1 iu False po
                  Response c q3 Inl by auto
            next
              case (Inr eiu)
              note Inr3 = this
              obtain ei eu where eiu: "eiu = (ei, eu)" by (cases eiu)
              show ?thesis
              proof (cases "ei = 0")
                case True
                then have "r = Inl (ExistsButCannotRetrieve body)" "st' = st3"
                  using q1 r1 iu False po Response ge c q3 Inr3 eiu assms
                  by (auto simp: findOrCreate_def)
                then show ?thesis
                  using ConflictLost[of i u st1 code body decoded st2 q] q1 r1 iu
                    False po Response c q3 Inr3 eiu True by auto
              next
                case ne: False
                then have "r = Inr (ei, eu)" "st' = st3"
                  using q1 r1 iu False po Response ge c q3 Inr3 eiu assms
                  by (auto simp: findOrCreate_def)
                then show ?thesis
                  using ConflictFound[of i u st1 code body decoded st2 ei eu] q1
                    \<open>r1 = Inr iu\<close> iu False po Response c q3 Inr3 eiu ne by auto
              qed
            qed
          next
            case c: False
            then have "r = Inl (CreateFailed n body)" "st' = st2"
              using q1 r1 iu False po Response ge assms by (auto simp: findOrCreate_def)
            then show ?thesis
              using Refused[of i u st1 code body decoded] q1 r1 iu False po Response ge c
              by auto
          qed
        next
          case ge: False
          show ?thesis
          proof (cases decoded)
            case None
            then have "r = Inl DecodeError" "st' = st2"
              using q1 r1 iu False po Response ge assms by (auto simp: findOrCreate_def)
            then show ?thesis
              using Undecodable[of i u st1 code body] q1 r1 iu False po Response ge None
              by auto
          next
            case (Some cc)
            obtain ci cu where cc: "cc = (ci, cu)" by (cases cc)
            have "r = Inr (ci, cu)" "st' = st2"
              using q1 r1 iu False po Response ge Some cc assms
              by (auto simp: findOrCreate_def)
            then show ?thesis
              using Created[of i u st1 code body ci cu] q1 r1 iu False po Response ge Some cc
              by auto
          qed
        qed
      qed
    qed
  qed
qed

lemma findOrCreate_frame:
  assumes "findOrCreate api n p st = (r, st')"
  shows "heap st' = heap st" "folders st' = folders st"
proof -
  have "heap st' = heap st \<and> folders st' = folders st"
    using assms
    by (cases rule: findOrCreate_cases)
       (metis getFolderByTitle_heap' getFolderByTitle_folders' postFolder_heap'
              postFolder_folders')+
  then show "heap st' = heap st" "folders st' = folders st" by simp_all
qed




lemma forChildren_Cons_Some:
  assumes "forChildren f (c # cs) st = Some (e, st')"
  shows "\<exists>e1 s1. f c st = Some (e1, s1) \<and>
           (e1 = None \<longrightarrow> forChildren f cs s1 = Some (e, st')) \<and>
           (e1 \<noteq> None \<longrightarrow> e = e1 \<and> st' = s1)"
proof (cases "f c st")
  case None
  then show ?thesis using assms by simp
next
  case (Some a)
  obtain e1 s1 where a: "a = (e1, s1)" by (cases a)
  show ?thesis using assms Some a by (cases e1) auto
qed

lemma forChildren_rule:
  assumes refl: "\<And>s. P s \<Longrightarrow> R s s"
    and trans: "\<And>s1 s2 s3. R s1 s2 \<Longrightarrow> R s2 s3 \<Longrightarrow> R s1 s3"
  shows "\<forall>c\<in>set cs. \<forall>s e s'. P s \<longrightarrow> f c s = Some (e, s') \<longrightarrow> R s s' \<and> P s' \<Longrightarrow>
         P st \<Longrightarrow> forChildren f cs st = Some (e, st') \<Longrightarrow> R st st' \<and> P st'"
proof (induction cs arbitrary: st)
  case Nil
  from Nil(3) have "st' = st" by simp
  then show ?case using Nil(2) refl by simp
next
  case (Cons c cs)
  note step = Cons.prems(1) and P = Cons.prems(2) and run = Cons.prems(3)
  from forChildren_Cons_Some[OF run] obtain e1 s1 where f: "f c st = Some (e1, s1)"
    and cont: "e1 = None \<longrightarrow> forChildren f cs s1 = Some (e, st')"
    and stop: "e1 \<noteq> None \<longrightarrow> e = e1 \<and> st' = s1"
    by (elim exE conjE)
  have "c \<in> set (c # cs)" by simp
  with step have "\<forall>s e s'. P s \<longrightarrow> f c s = Some (e, s') \<longrightarrow> R s s' \<and> P s'" by (rule bspec)
  then have r1: "R st s1 \<and> P s1" using P f by blast
  show ?case
  proof (cases e1)
    case None
    then have run': "forChildren f cs s1 = Some (e, st')" using cont by simp
    have step': "\<forall>c\<in>set cs. \<forall>s e s'. P s \<longrightarrow> f c s = Some (e, s') \<longrightarrow> R s s' \<and> P s'"
    proof
      fix c' assume "c' \<in> set cs"
      then have "c' \<in> set (c # cs)" by simp
      with step show "\<forall>s e s'. P s \<longrightarrow> f c' s = Some (e, s') \<longrightarrow> R s s' \<and> P s'"
        by (rule bspec)
    qed
    have p1: "P s1" using r1 by simp
    have r2: "R s1 st' \<and> P st'"
      using Cons.IH[OF step' p1 run'] .
    have "R st st'" using trans[of st s1 st'] r1 r2 by blast
    then show ?thesis using r2 by blast
  next
    case (Some err)
    then have "st' = s1" using stop by simp
    then show ?thesis using r1 by simp
  qed
qed

lemma sameShape_refl: "sameShape h h"
  by (simp add: sameShape_def)

lemma sameShape_trans: "sameShape h1 h2 \<Longrightarrow> sameShape h2 h3 \<Longrightarrow> sameShape h1 h3"
  by (simp add: sameShape_def)

lemma adopt_heap_shape: "sameShape (heap st) (heap (adopt node i u st))"
proof -
  have "Name (heap (adopt node i u st) ! a) = Name (heap st ! a) \<and>
        FullPath (heap (adopt node i u st) ! a) = FullPath (heap st ! a) \<and>
        Children (heap (adopt node i u st) ! a) = Children (heap st ! a)"
    if "a < length (heap st)" for a
    using that by (cases "a = node") (simp_all add: adopt_def)
  then show ?thesis by (simp add: sameShape_def adopt_def)
qed

lemma CreateFolderTreeFromNode_shape:
  "CreateFolderTreeFromNode depth api node parentUid st = Some (e, st') \<Longrightarrow>
     sameShape (heap st) (heap st')"
proof (induction depth arbitrary: node parentUid st e st')
  case 0
  then show ?case by simp
next
  case (Suc depth)
  obtain r st1 where foc: "findOrCreate api (Name (heap st ! node)) parentUid st = (r, st1)"
    by (cases "findOrCreate api (Name (heap st ! node)) parentUid st")
  have h1: "heap st1 = heap st" using findOrCreate_frame[OF foc] by simp
  show ?case
  proof (cases r)
    case (Inl err)
    then have "st' = st1" using Suc.prems foc
      by (simp del: CreateFolderTreeFromNode.simps add: CreateFolderTreeFromNode_block)
    then show ?thesis using h1 by (simp add: sameShape_refl)
  next
    case (Inr iu)
    obtain i u where iu: "iu = (i, u)" by (cases iu)
    let ?st2 = "adopt node i u st1"
    have run: "forChildren (\<lambda>child. CreateFolderTreeFromNode depth api child u)
            (Children (heap ?st2 ! node)) ?st2 = Some (e, st')"
      using Suc.prems foc Inr iu
      by (simp del: CreateFolderTreeFromNode.simps add: CreateFolderTreeFromNode_block)
    have "sameShape (heap ?st2) (heap st') \<and> True"
    proof (rule forChildren_rule[where P="\<lambda>_. True" and R="\<lambda>s s'. sameShape (heap s) (heap s')",
                OF _ _ _ _ run])
      show "\<And>s. True \<Longrightarrow> sameShape (heap s) (heap s)" by (simp add: sameShape_refl)
      show "\<And>s1 s2 s3. sameShape (heap s1) (heap s2) \<Longrightarrow> sameShape (heap s2) (heap s3) \<Longrightarrow>
              sameShape (heap s1) (heap s3)" by (rule sameShape_trans)
      show "\<forall>c\<in>set (Children (heap ?st2 ! node)). \<forall>s e s'. True \<longrightarrow>
              CreateFolderTreeFromNode depth api c u s = Some (e, s') \<longrightarrow>
              sameShape (heap s) (heap s') \<and> True"
        using Suc.IH by blast
      show True ..
    qed
    moreover have "sameShape (heap st) (heap ?st2)" using adopt_heap_shape[of st1] h1 by simp
    ultimately show ?thesis using sameShape_trans by blast
  qed
qed











lemma sameShape_length: "sameShape h h' \<Longrightarrow> length h' = length h"
  by (simp add: sameShape_def)

lemma ascending_shape:
  assumes "sameShape h h'" "ascending h"
  shows "ascending h'"
proof -
  have l: "length h' = length h" using assms(1) unfolding sameShape_def by blast
  have c: "Children (h' ! a) = Children (h ! a)" if "a < length h" for a
    using assms(1) that unfolding sameShape_def by blast
  have "a < c \<and> c < length h'" if "a < length h'" "c \<in> set (Children (h' ! a))" for a c
  proof -
    have a: "a < length h" using that(1) l by simp
    then have "c \<in> set (Children (h ! a))" using that(2) c by simp
    then have "a < c \<and> c < length h" using assms(2) a unfolding ascending_def by blast
    then show ?thesis using l by simp
  qed
  then show ?thesis unfolding ascending_def by blast
qed











lemma sameShape_fields:
  assumes "sameShape h h'" "a < length h"
  shows "Name (h' ! a) = Name (h ! a)" "FullPath (h' ! a) = FullPath (h ! a)"
    "Children (h' ! a) = Children (h ! a)"
  using assms unfolding sameShape_def by blast+

lemma ascending_child:
  assumes "ascending h" "a < length h" "c \<in> set (Children (h ! a))"
  shows "a < c" "c < length h"
  using assms unfolding ascending_def by blast+

















lemma distinctPaths_shape:
  assumes "sameShape h h'" "distinctPaths h"
  shows "distinctPaths h'"
proof -
  have "map FullPath h' = map FullPath h"
  proof (rule nth_equalityI)
    show "length (map FullPath h') = length (map FullPath h)"
      using sameShape_length[OF assms(1)] by simp
  next
    fix a assume "a < length (map FullPath h')"
    then have a: "a < length h" "a < length h'" using sameShape_length[OF assms(1)] by simp_all
    show "map FullPath h' ! a = map FullPath h ! a"
      using sameShape_fields(2)[OF assms(1) a(1)] a by simp
  qed
  then show ?thesis using assms(2) unfolding distinctPaths_def by simp
qed

lemma distinctPaths_neq:
  assumes "distinctPaths h" "a < length h" "b < length h" "a \<noteq> b"
  shows "FullPath (h ! a) \<noteq> FullPath (h ! b)"
proof -
  have d: "distinct (map FullPath h)" using assms(1) unfolding distinctPaths_def .
  have "map FullPath h ! a \<noteq> map FullPath h ! b"
    using nth_eq_iff_index_eq[OF d, of a b] assms(2,3,4) by simp
  then show ?thesis using assms(2,3) by simp
qed

lemma adopt_other:
  assumes "distinctPaths (heap s)" "c < length (heap s)" "b < length (heap s)" "b \<noteq> c"
  shows "heap (adopt c i u s) ! b = heap s ! b"
    "folders (adopt c i u s) (FullPath (heap s ! b)) = folders s (FullPath (heap s ! b))"
proof -
  show "heap (adopt c i u s) ! b = heap s ! b" using assms(4) by (simp add: adopt_def)
  have "FullPath (heap s ! c) \<noteq> FullPath (heap s ! b)"
    using distinctPaths_neq[OF assms(1,2,3)] assms(4) by blast
  then show "folders (adopt c i u s) (FullPath (heap s ! b)) = folders s (FullPath (heap s ! b))"
    by (simp add: adopt_def)
qed

lemma walk_frame:
  assumes "ascending (heap st)" "distinctPaths (heap st)" "c < length (heap st)" "b < c"
    "CreateFolderTreeFromNode depth api c p st = Some (e, st')"
  shows "heap st' ! b = heap st ! b \<and>
         folders st' (FullPath (heap st ! b)) = folders st (FullPath (heap st ! b))"
  using assms
proof (induction depth arbitrary: c p st e st')
  case 0
  then show ?case by simp
next
  case (Suc depth)
  let ?k = "FullPath (heap st ! b)"
  have bl: "b < length (heap st)" using Suc.prems(3,4) by simp
  obtain r sa where fc: "findOrCreate api (Name (heap st ! c)) p st = (r, sa)"
    by (cases "findOrCreate api (Name (heap st ! c)) p st")
  have fr: "heap sa = heap st" "folders sa = folders st" using findOrCreate_frame[OF fc] by simp_all
  show ?case
  proof (cases r)
    case (Inl err)
    then have "st' = sa" using Suc.prems(5) fc
      by (simp del: CreateFolderTreeFromNode.simps add: CreateFolderTreeFromNode_block)
    then show ?thesis using fr by simp
  next
    case (Inr iu)
    obtain i u where iu: "iu = (i, u)" by (cases iu)
    let ?s2 = "adopt c i u sa"
    have fc': "findOrCreate api (Name (heap st ! c)) p st = (Inr (i, u), sa)"
      using fc Inr iu by simp
    have sh: "sameShape (heap st) (heap ?s2)" using adopt_heap_shape[of sa c i u] fr by simp
    have ch: "Children (heap ?s2 ! c) = Children (heap st ! c)"
      using sameShape_fields(3)[OF sh Suc.prems(3)] .
    have run: "forChildren (\<lambda>child. CreateFolderTreeFromNode depth api child u)
                 (Children (heap st ! c)) ?s2 = Some (e, st')"
      using Suc.prems(5) fc' ch
      by (simp del: CreateFolderTreeFromNode.simps add: CreateFolderTreeFromNode_block)
    have "b \<noteq> c" using Suc.prems(4) by simp
    then have a0: "heap ?s2 ! b = heap st ! b \<and> folders ?s2 ?k = folders st ?k"
      using adopt_other[of sa c b i u] fr Suc.prems(2,3) bl by simp
    let ?P = "\<lambda>s. sameShape (heap st) (heap s)"
    let ?R = "\<lambda>s s'. heap s' ! b = heap s ! b \<and> folders s' ?k = folders s ?k"
    have step: "\<forall>d\<in>set (Children (heap st ! c)). \<forall>s e s'.
        ?P s \<longrightarrow> CreateFolderTreeFromNode depth api d u s = Some (e, s') \<longrightarrow> ?R s s' \<and> ?P s'"
    proof (intro ballI allI impI)
      fix d s e s'
      assume d: "d \<in> set (Children (heap st ! c))"
        and s: "sameShape (heap st) (heap s)"
        and r: "CreateFolderTreeFromNode depth api d u s = Some (e, s')"
      have a: "ascending (heap s)" using ascending_shape[OF s Suc.prems(1)] .
      have n: "distinctPaths (heap s)" using distinctPaths_shape[OF s Suc.prems(2)] .
      have dc: "c < d" "d < length (heap st)" using ascending_child[OF Suc.prems(1,3) d] .
      then have l: "d < length (heap s)" using sameShape_length[OF s] by simp
      have bd: "b < d" using dc(1) Suc.prems(4) by simp
      have k: "FullPath (heap s ! b) = ?k" using sameShape_fields(2)[OF s bl] .
      have "heap s' ! b = heap s ! b \<and>
            folders s' (FullPath (heap s ! b)) = folders s (FullPath (heap s ! b))"
        using Suc.IH[OF a n l bd r] .
      then have "?R s s'" unfolding k .
      moreover have "?P s'" using sameShape_trans[OF s CreateFolderTreeFromNode_shape[OF r]] .
      ultimately show "?R s s' \<and> ?P s'" by blast
    qed
    have "?R ?s2 st' \<and> ?P st'"
      by (rule forChildren_rule[where P = ?P and R = ?R, OF _ _ step sh run]) simp_all
    then show ?thesis using a0 by simp
  qed
qed

lemma children_frame:
  assumes asc: "ascending (heap st)" and dp: "distinctPaths (heap st)"
    and n: "node < length (heap st)"
    and cs: "\<forall>c\<in>set cs. node < c \<and> c < length (heap st)"
    and run: "forChildren (\<lambda>child. CreateFolderTreeFromNode depth api child u) cs st = Some (e, st')"
  shows "heap st' ! node = heap st ! node \<and>
         folders st' (FullPath (heap st ! node)) = folders st (FullPath (heap st ! node))"
proof -
  let ?k = "FullPath (heap st ! node)"
  let ?P = "\<lambda>s. sameShape (heap st) (heap s)"
  let ?R = "\<lambda>s s'. heap s' ! node = heap s ! node \<and> folders s' ?k = folders s ?k"
  have step: "\<forall>d\<in>set cs. \<forall>s e s'.
      ?P s \<longrightarrow> CreateFolderTreeFromNode depth api d u s = Some (e, s') \<longrightarrow> ?R s s' \<and> ?P s'"
  proof (intro ballI allI impI)
    fix d s e s'
    assume d: "d \<in> set cs" and s: "sameShape (heap st) (heap s)"
      and r: "CreateFolderTreeFromNode depth api d u s = Some (e, s')"
    have a: "ascending (heap s)" using ascending_shape[OF s asc] .
    have p: "distinctPaths (heap s)" using distinctPaths_shape[OF s dp] .
    have dc: "node < d" "d < length (heap st)" using cs d by blast+
    then have l: "d < length (heap s)" using sameShape_length[OF s] by simp
    have k: "FullPath (heap s ! node) = ?k" using sameShape_fields(2)[OF s n] .
    have "heap s' ! node = heap s ! node \<and>
          folders s' (FullPath (heap s ! node)) = folders s (FullPath (heap s ! node))"
      using walk_frame[OF a p l dc(1) r] .
    then have "?R s s'" unfolding k .
    moreover have "?P s'" using sameShape_trans[OF s CreateFolderTreeFromNode_shape[OF r]] .
    ultimately show "?R s s' \<and> ?P s'" by blast
  qed
  have "?R st st' \<and> ?P st'"
    by (rule forChildren_rule[where P = ?P and R = ?R, OF _ _ step sameShape_refl run]) simp_all
  then show ?thesis by simp
qed








end
